theory Spec2Isabelle
  imports Complex_Main
begin

section \<open>Data model of the shared trial study\<close>

text \<open>
  The repository's code is the tutorial notebook
  \<^verbatim>\<open>4a.2-Local_parallelized_hp_search.ipynb\<close>: the worker function
  \<^verbatim>\<open>optimize_study\<close> and the driver loop that times it for several process counts.
  The study, its journal and the \<^verbatim>\<open>ask\<close>/\<^verbatim>\<open>tell\<close> calls belong to the library the notebook
  imports; they are modelled here from the specification's description of them
  (sections 3 and 4), each such definition saying so.
\<close>

datatype status = Running | Complete | Failed

datatype direction = Minimize | Maximize

datatype error =
  IOFailure
  | UnknownTrialError
  | DuplicateTellError
  | ObjectiveEvaluationError string
  | ZeroDivisionError

text \<open>Modelled from the spec: the Trial record of section 3 (\<^verbatim>\<open>id\<close>, \<^verbatim>\<open>parameters\<close>,
  \<^verbatim>\<open>status\<close>, \<^verbatim>\<open>value\<close>); the type of parameters and of scores is left open.\<close>

record ('p, 'v) trial =
  trial_id :: nat
  parameters :: 'p
  status :: status
  trial_value :: "'v option"

text \<open>Modelled from the spec: the Study record of section 3.\<close>

record ('p, 'v) study =
  name :: string
  direction :: direction
  trials :: "('p, 'v) trial list"

text \<open>Modelled from the spec: what a worker tells about a trial, a score or the error of
  its evaluation.\<close>

datatype 'v outcome = Score 'v | EvalError string

text \<open>Modelled from the spec: a Journal Event of section 3. The event kind and its payload
  are one tagged value; every payload starts with the id of the trial it is about.\<close>

datatype ('p, 'v) event_kind =
  TrialCreated nat 'p
  | TrialCompleted nat 'v
  | TrialFailed nat string

record ('p, 'v) event =
  sequence_number :: nat
  content :: "('p, 'v) event_kind"

type_synonym ('p, 'v) journal = "('p, 'v) event list"

section \<open>Journal store\<close>

text \<open>Modelled from the spec: \<^verbatim>\<open>append(event) -> sequence_number\<close> of section 4.1. The
  store numbers the event with its position and puts it last; it runs under the store's
  lock, so one call is one atomic step on the shared journal. Failures of the file system
  (\<^verbatim>\<open>IOFailure\<close>) are outside the model.\<close>

definition journal_append ::
  "('p, 'v) event_kind \<Rightarrow> ('p, 'v) journal \<Rightarrow> ('p, 'v) journal \<times> nat" where
  "journal_append k j = (j @ [\<lparr>sequence_number = length j, content = k\<rparr>], length j)"

text \<open>Modelled from the spec: \<^verbatim>\<open>read_all()\<close> of section 4.1, every event in append order.\<close>

definition read_all :: "('p, 'v) journal \<Rightarrow> ('p, 'v) event list" where
  "read_all j = j"

section \<open>Study: replay, open, ask and tell\<close>

text \<open>Modelled from the spec: the effect of one event on the trials of a study (the
  lifecycle of section 3: created Running, then Complete with its value, or Failed).\<close>

fun apply_event ::
  "('p, 'v) trial list \<Rightarrow> ('p, 'v) event_kind \<Rightarrow> ('p, 'v) trial list" where
  "apply_event ts (TrialCreated i p) =
     ts @ [\<lparr>trial_id = i, parameters = p, status = Running, trial_value = None\<rparr>]"
| "apply_event ts (TrialCompleted i v) =
     map (\<lambda>t. if trial_id t = i then t\<lparr>status := Complete, trial_value := Some v\<rparr> else t) ts"
| "apply_event ts (TrialFailed i e) =
     map (\<lambda>t. if trial_id t = i then t\<lparr>status := Failed\<rparr> else t) ts"

text \<open>Modelled from the spec: replaying all events in sequence order rebuilds the trials.\<close>

definition replay :: "('p, 'v) event list \<Rightarrow> ('p, 'v) trial list" where
  "replay es = foldl apply_event [] (map content es)"

text \<open>Modelled from the spec: \<^verbatim>\<open>open(name, direction)\<close> of section 4.2. A journal that does
  not exist yet is the empty journal.\<close>

definition open_study ::
  "string \<Rightarrow> direction \<Rightarrow> ('p, 'v) journal \<Rightarrow> ('p, 'v) study" where
  "open_study n d j = \<lparr>name = n, direction = d, trials = replay (read_all j)\<rparr>"

text \<open>The outcome recorded in the journal for a trial id, if any: its first completion
  record.\<close>

fun completion_of :: "nat \<Rightarrow> ('p, 'v) event_kind \<Rightarrow> 'v outcome option" where
  "completion_of i (TrialCreated k p) = None"
| "completion_of i (TrialCompleted k v) = (if k = i then Some (Score v) else None)"
| "completion_of i (TrialFailed k e) = (if k = i then Some (EvalError e) else None)"

definition completions :: "('p, 'v) journal \<Rightarrow> nat \<Rightarrow> 'v outcome list" where
  "completions j i = List.map_filter (completion_of i) (map content j)"

definition told :: "('p, 'v) journal \<Rightarrow> nat \<Rightarrow> 'v outcome option" where
  "told j i = (case completions j i of [] \<Rightarrow> None | out # _ \<Rightarrow> Some out)"

fun completion_event :: "nat \<Rightarrow> 'v outcome \<Rightarrow> ('p, 'v) event_kind" where
  "completion_event i (Score v) = TrialCompleted i v"
| "completion_event i (EvalError e) = TrialFailed i e"

text \<open>Modelled from the spec: \<^verbatim>\<open>ask()\<close> of section 4.2. Under the store's lock the handle
  replays the journal (no cached state is trusted across processes), takes as next id the
  number of trials created so far, appends the \<^verbatim>\<open>TrialCreated\<close> event with the sampled
  parameters and returns the trial, Running. The sampler (section 6) is a parameter.\<close>

definition ask ::
  "(nat \<Rightarrow> 'p) \<Rightarrow> ('p, 'v) study \<times> ('p, 'v) journal
     \<Rightarrow> ('p, 'v) trial \<times> ('p, 'v) study \<times> ('p, 'v) journal" where
  "ask sample h =
     (let s = fst h; j = snd h;
          ts = replay (read_all j);
          i = length ts;
          p = sample i;
          k = TrialCreated i p;
          j' = fst (journal_append k j)
      in (\<lparr>trial_id = i, parameters = p, status = Running, trial_value = None\<rparr>,
          s\<lparr>trials := apply_event ts k\<rparr>, j'))"

text \<open>Modelled from the spec: \<^verbatim>\<open>tell(trial, value)\<close> of section 4.2. An id never asked
  from this journal is \<^verbatim>\<open>UnknownTrialError\<close>; the first tell appends the completion
  record; a repeated tell of the recorded outcome changes nothing; a repeated tell of
  another outcome is \<^verbatim>\<open>DuplicateTellError\<close>.\<close>

definition tell ::
  "('p, 'v) trial \<Rightarrow> 'v outcome \<Rightarrow> ('p, 'v) study \<times> ('p, 'v) journal
     \<Rightarrow> error + ('p, 'v) study \<times> ('p, 'v) journal" where
  "tell t out h =
     (let s = fst h; j = snd h;
          ts = replay (read_all j);
          i = trial_id t
      in if i \<notin> set (map trial_id ts) then Inl UnknownTrialError
         else (case told j i of
                 None \<Rightarrow>
                   (let k = completion_event i out;
                        j' = fst (journal_append k j)
                    in Inr (s\<lparr>trials := apply_event ts k\<rparr>, j'))
               | Some out' \<Rightarrow>
                   if out' = out then Inr (s\<lparr>trials := ts\<rparr>, j)
                   else Inl DuplicateTellError))"

section \<open>Observing a journal\<close>

text \<open>The trial ids of the \<^verbatim>\<open>TrialCreated\<close> events of a journal and those of its completion
  records (\<^verbatim>\<open>TrialCompleted\<close>, \<^verbatim>\<open>TrialFailed\<close>), both in journal order.\<close>

fun creation_of :: "('p, 'v) event_kind \<Rightarrow> nat option" where
  "creation_of (TrialCreated i p) = Some i"
| "creation_of (TrialCompleted i v) = None"
| "creation_of (TrialFailed i e) = None"

fun finishing_of :: "('p, 'v) event_kind \<Rightarrow> nat option" where
  "finishing_of (TrialCreated i p) = None"
| "finishing_of (TrialCompleted i v) = Some i"
| "finishing_of (TrialFailed i e) = Some i"

definition created_ids :: "('p, 'v) journal \<Rightarrow> nat list" where
  "created_ids j = List.map_filter creation_of (map content j)"

definition completed_ids :: "('p, 'v) journal \<Rightarrow> nat list" where
  "completed_ids j = List.map_filter finishing_of (map content j)"

text \<open>The journals the store produces: events numbered by position, trial ids handed out
  in order from 0, and at most one completion record per trial, of a trial created.\<close>

definition well_formed :: "('p, 'v) journal \<Rightarrow> bool" where
  "well_formed j \<longleftrightarrow>
     map sequence_number j = [0..<length j] \<and>
     created_ids j = [0..<length (created_ids j)] \<and>
     distinct (completed_ids j) \<and>
     list_all (\<lambda>i. i < length (created_ids j)) (completed_ids j)"

text \<open>Appending a sequence of events, one \<^verbatim>\<open>append\<close> each.\<close>

definition append_all ::
  "('p, 'v) event_kind list \<Rightarrow> ('p, 'v) journal \<Rightarrow> ('p, 'v) journal" where
  "append_all ks j = foldl (\<lambda>j k. fst (journal_append k j)) j ks"

section \<open>Processes calling ask and tell on one journal\<close>

text \<open>
  Any number of processes, each with its own study handle, share one journal. The store
  serialises appends, so a concurrent execution is a sequence of calls, each tagged with the
  process that makes it, in the order in which the store serves them; every such sequence
  is allowed.
\<close>

datatype ('p, 'v) call = AskCall | TellCall "('p, 'v) trial" "'v outcome"

datatype ('p, 'v) reply = Asked "('p, 'v) trial" | Told | Refused error

fun perform ::
  "(nat \<Rightarrow> 'p) \<Rightarrow> nat \<times> ('p, 'v) call \<Rightarrow> (nat \<Rightarrow> ('p, 'v) study) \<times> ('p, 'v) journal
     \<Rightarrow> ((nat \<Rightarrow> ('p, 'v) study) \<times> ('p, 'v) journal) \<times> ('p, 'v) reply" where
  "perform smp (p, AskCall) (hs, j) =
     (let r = ask smp (hs p, j) in ((hs(p := fst (snd r)), snd (snd r)), Asked (fst r)))"
| "perform smp (p, TellCall t out) (hs, j) =
     (case tell t out (hs p, j) of
        Inl e \<Rightarrow> ((hs, j), Refused e)
      | Inr h \<Rightarrow> ((hs(p := fst h), snd h), Told))"

fun run_calls ::
  "(nat \<Rightarrow> 'p) \<Rightarrow> (nat \<times> ('p, 'v) call) list \<Rightarrow> (nat \<Rightarrow> ('p, 'v) study) \<times> ('p, 'v) journal
     \<Rightarrow> ((nat \<Rightarrow> ('p, 'v) study) \<times> ('p, 'v) journal) \<times> ('p, 'v) reply list" where
  "run_calls smp [] c = (c, [])"
| "run_calls smp (x # xs) c =
     (let r = perform smp x c; rest = run_calls smp xs (fst r)
      in (fst rest, snd r # snd rest))"

text \<open>The trial ids the asks of a run handed out, in the order of the calls.\<close>

fun handed :: "('p, 'v) reply \<Rightarrow> nat option" where
  "handed (Asked t) = Some (trial_id t)"
| "handed Told = None"
| "handed (Refused e) = None"

definition handed_out :: "('p, 'v) reply list \<Rightarrow> nat list" where
  "handed_out rs = List.map_filter handed rs"

section \<open>Reading a journal without replay\<close>

text \<open>Modelled from the spec: what the events of a journal say about the trial with id \<open>i\<close>,
  read off the events themselves (section 3): its parameters are those of its
  \<^verbatim>\<open>TrialCreated\<close> event; it is Running until a completion record is appended for it,
  Complete with the recorded value after a \<^verbatim>\<open>TrialCompleted\<close>, Failed after a
  \<^verbatim>\<open>TrialFailed\<close>. \<open>recorded_trials\<close> lists these trials in the order of their creation.
  This is the trial set a reopened study is compared with.\<close>

fun sampling_of :: "nat \<Rightarrow> ('p, 'v) event_kind \<Rightarrow> 'p option" where
  "sampling_of i (TrialCreated k p) = (if k = i then Some p else None)"
| "sampling_of i (TrialCompleted k v) = None"
| "sampling_of i (TrialFailed k e) = None"

definition sampled :: "('p, 'v) journal \<Rightarrow> nat \<Rightarrow> 'p option" where
  "sampled j i = (case List.map_filter (sampling_of i) (map content j) of
                    [] \<Rightarrow> None | p # _ \<Rightarrow> Some p)"

fun status_of :: "'v outcome option \<Rightarrow> status" where
  "status_of None = Running"
| "status_of (Some (Score v)) = Complete"
| "status_of (Some (EvalError e)) = Failed"

fun value_of :: "'v outcome option \<Rightarrow> 'v option" where
  "value_of None = None"
| "value_of (Some (Score v)) = Some v"
| "value_of (Some (EvalError e)) = None"

definition recorded :: "('p, 'v) journal \<Rightarrow> nat \<Rightarrow> ('p, 'v) trial option" where
  "recorded j i =
     map_option
       (\<lambda>p. \<lparr>trial_id = i, parameters = p, status = status_of (told j i),
             trial_value = value_of (told j i)\<rparr>)
       (sampled j i)"

definition recorded_trials :: "('p, 'v) journal \<Rightarrow> ('p, 'v) trial list" where
  "recorded_trials j = List.map_filter (recorded j) (created_ids j)"

text \<open>Modelled from the spec: the journals the store can hold. Events are only appended
  (section 4.1), each one by an \<^verbatim>\<open>ask\<close> or an accepted first \<^verbatim>\<open>tell\<close> (section 4.2): an
  event is admitted after a journal when it carries the next sequence number and either
  creates the trial with the next id or completes a trial created and not yet completed. A
  journal is stored when each of its events was admitted after the events before it.\<close>

fun admits :: "('p, 'v) journal \<Rightarrow> ('p, 'v) event \<Rightarrow> bool" where
  "admits j e \<longleftrightarrow>
     sequence_number e = length j \<and>
     (case content e of
        TrialCreated i p \<Rightarrow> i = length (created_ids j)
      | TrialCompleted i v \<Rightarrow> i \<in> set (created_ids j) \<and> i \<notin> set (completed_ids j)
      | TrialFailed i x \<Rightarrow> i \<in> set (created_ids j) \<and> i \<notin> set (completed_ids j))"

definition stored :: "('p, 'v) journal \<Rightarrow> bool" where
  "stored j \<longleftrightarrow> list_all (\<lambda>n. admits (take n j) (j ! n)) [0..<length j]"
section \<open>The notebook: study parameters\<close>

text \<open>
  \<^verbatim>\<open>nb_trials = 32\<close>,
  \<^verbatim>\<open>study_name = 'optuna_tutorial'\<close>,
  \<^verbatim>\<open>log_name = f"optuna-journal_{study_name}.log"\<close>,
  \<^verbatim>\<open>storage = JournalStorage(JournalFileStorage(log_name))\<close>.
  The storage is the one journal that every call of \<^verbatim>\<open>optimize_study\<close> works on; the
  sampler is a parameter of the model.
\<close>

definition nb_trials :: int where
  "nb_trials = 32"



text \<open>The name and direction \<^verbatim>\<open>optimize_study\<close> passes to \<^verbatim>\<open>optuna.create_study\<close>.\<close>

definition created_study_name :: string where
  "created_study_name = ''paralellization_tutorial''"

definition created_direction :: direction where
  "created_direction = Minimize"

section \<open>The notebook: optimize_study\<close>

text \<open>
  \<^verbatim>\<open>
  def optimize_study(n_trials):
      study = optuna.create_study(study_name='paralellization_tutorial',
          direction='minimize', storage=storage,
          sampler=optuna.samplers.RandomSampler(), load_if_exists=True)
      for i in range(n_trials):
          trial = study.ask()
          study.tell(trial, objective(trial))
  \<close>
  The objective returns a score or raises; nothing in the function catches an exception,
  so a raise in \<^verbatim>\<open>objective\<close> or in \<^verbatim>\<open>tell\<close> ends the call. The model records the calls
  made, in order, beside the state of the handle and journal.
\<close>

datatype ('p, 'v) action =
  Ask "('p, 'v) trial"
  | Evaluate "('p, 'v) trial"
  | Tell "('p, 'v) trial" 'v

record ('p, 'v) run =
  handle :: "('p, 'v) study \<times> ('p, 'v) journal"
  actions :: "('p, 'v) action list"
  raised :: "error option"

fun trial_loop ::
  "(('p, 'v) trial \<Rightarrow> error + 'v) \<Rightarrow> (nat \<Rightarrow> 'p) \<Rightarrow> nat
     \<Rightarrow> ('p, 'v) study \<times> ('p, 'v) journal \<Rightarrow> ('p, 'v) action list \<Rightarrow> ('p, 'v) run" where
  "trial_loop objective sampler 0 h tr = \<lparr>handle = h, actions = tr, raised = None\<rparr>"
| "trial_loop objective sampler (Suc k) h tr =
     (let a = ask sampler h; trial = fst a; h1 = snd a
      in case objective trial of
           Inl e \<Rightarrow>
             \<lparr>handle = h1, actions = tr @ [Ask trial, Evaluate trial], raised = Some e\<rparr>
         | Inr v \<Rightarrow>
             (case tell trial (Score v) h1 of
                Inl e \<Rightarrow>
                  \<lparr>handle = h1, actions = tr @ [Ask trial, Evaluate trial, Tell trial v],
                   raised = Some e\<rparr>
              | Inr h2 \<Rightarrow>
                  trial_loop objective sampler k h2
                    (tr @ [Ask trial, Evaluate trial, Tell trial v])))"

definition optimize_study ::
  "(('p, 'v) trial \<Rightarrow> error + 'v) \<Rightarrow> (nat \<Rightarrow> 'p) \<Rightarrow> int \<Rightarrow> ('p, 'v) journal
     \<Rightarrow> ('p, 'v) run" where
  "optimize_study objective sampler n_trials storage =
     trial_loop objective sampler (nat n_trials)
       (open_study created_study_name created_direction storage, storage) []"

text \<open>The trace of a run cut into iterations: each is one ask, one evaluation and one
  tell of the same trial, in that order; \<open>None\<close> when the trace is not of that shape.\<close>

fun iterations :: "('p, 'v) action list \<Rightarrow> (('p, 'v) trial \<times> 'v) list option" where
  "iterations [] = Some []"
| "iterations (Ask t # Evaluate t' # Tell t'' v # rest) =
     (if t' = t \<and> t'' = t then map_option ((#) (t, v)) (iterations rest) else None)"
| "iterations (a # rest) = None"

text \<open>The trial a trace has asked and not yet told, followed action by action:
  \<open>Some None\<close> when none is outstanding, \<open>Some (Some t)\<close> when \<open>t\<close> is, and \<open>None\<close> once
  the trace asks while a trial is outstanding or evaluates or tells a trial other than the
  outstanding one.\<close>

fun track ::
  "('p, 'v) trial option option \<Rightarrow> ('p, 'v) action \<Rightarrow> ('p, 'v) trial option option" where
  "track (Some None) (Ask t) = Some (Some t)"
| "track (Some (Some t)) (Evaluate t') = (if t' = t then Some (Some t) else None)"
| "track (Some (Some t)) (Tell t' v) = (if t' = t then Some None else None)"
| "track h a = None"

definition outstanding :: "('p, 'v) action list \<Rightarrow> ('p, 'v) trial option option" where
  "outstanding tr = foldl track (Some None) tr"

fun is_ask :: "('p, 'v) action \<Rightarrow> bool" where
  "is_ask (Ask t) = True"
| "is_ask a = False"

fun is_tell :: "('p, 'v) action \<Rightarrow> bool" where
  "is_tell (Tell t v) = True"
| "is_tell a = False"

section \<open>Worker processes on the shared journal\<close>

text \<open>
  \<^verbatim>\<open>joblib.Parallel(n_jobs=n_process)(joblib.delayed(optimize_study)(args) for args in args_list)\<close>
  runs one call of \<^verbatim>\<open>optimize_study\<close> per element of \<^verbatim>\<open>args_list\<close>, each in a process of
  its own, all on the same storage. For the interleaving, \<^verbatim>\<open>optimize_study\<close> is cut at its
  accesses to the journal: opening the study, an ask, and the evaluation of the objective
  with the tell that follows it. A worker is at one of these points.
\<close>

datatype ('p, 'v) pc =
  Start
  | Loop "('p, 'v) study" nat
  | Body "('p, 'v) study" nat "('p, 'v) trial"
  | Raised error

record ('p, 'v) worker =
  n_trials :: int
  pc :: "('p, 'v) pc"
  trace :: "('p, 'v) action list"

text \<open>One step of a worker: the new program point, the calls it made and the journal.
  \<open>Loop s k\<close> is the head of the loop with \<open>k\<close> iterations to go, \<open>Body s k trial\<close> the point
  between \<^verbatim>\<open>ask\<close> and \<^verbatim>\<open>tell\<close>. A worker at \<open>Loop s 0\<close> has returned, one at \<open>Raised e\<close>
  has ended with the exception \<open>e\<close>: neither moves again.\<close>

fun pc_step ::
  "(('p, 'v) trial \<Rightarrow> error + 'v) \<Rightarrow> (nat \<Rightarrow> 'p) \<Rightarrow> int \<Rightarrow> ('p, 'v) pc \<Rightarrow> ('p, 'v) journal
     \<Rightarrow> ('p, 'v) pc \<times> ('p, 'v) action list \<times> ('p, 'v) journal" where
  "pc_step objective sampler n Start j =
     (Loop (open_study created_study_name created_direction j) (nat n), [], j)"
| "pc_step objective sampler n (Loop s 0) j = (Loop s 0, [], j)"
| "pc_step objective sampler n (Loop s (Suc k)) j =
     (let a = ask sampler (s, j); trial = fst a
      in (Body (fst (snd a)) k trial, [Ask trial], snd (snd a)))"
| "pc_step objective sampler n (Body s k trial) j =
     (case objective trial of
        Inl e \<Rightarrow> (Raised e, [Evaluate trial], j)
      | Inr v \<Rightarrow>
          (case tell trial (Score v) (s, j) of
             Inl e \<Rightarrow> (Raised e, [Evaluate trial, Tell trial v], j)
           | Inr h \<Rightarrow> (Loop (fst h) k, [Evaluate trial, Tell trial v], snd h)))"
| "pc_step objective sampler n (Raised e) j = (Raised e, [], j)"

definition worker_step ::
  "(('p, 'v) trial \<Rightarrow> error + 'v) \<Rightarrow> (nat \<Rightarrow> 'p) \<Rightarrow> ('p, 'v) worker \<Rightarrow> ('p, 'v) journal
     \<Rightarrow> ('p, 'v) worker \<times> ('p, 'v) journal" where
  "worker_step objective sampler w j =
     (let r = pc_step objective sampler (n_trials w) (pc w) j
      in (w\<lparr>pc := fst r, trace := trace w @ fst (snd r)\<rparr>, snd (snd r)))"

definition init_worker :: "int \<Rightarrow> ('p, 'v) worker" where
  "init_worker n = \<lparr>n_trials = n, pc = Start, trace = []\<rparr>"

text \<open>A schedule names, step by step, the worker that moves next; every list of worker
  indices is a schedule, and every interleaving of the workers is the run of one.\<close>

fun run_schedule ::
  "(('p, 'v) trial \<Rightarrow> error + 'v) \<Rightarrow> (nat \<Rightarrow> 'p) \<Rightarrow> nat list
     \<Rightarrow> ('p, 'v) worker list \<times> ('p, 'v) journal \<Rightarrow> ('p, 'v) worker list \<times> ('p, 'v) journal" where
  "run_schedule objective sampler [] c = c"
| "run_schedule objective sampler (i # sched) c =
     run_schedule objective sampler sched
       (if i < length (fst c)
        then (let r = worker_step objective sampler (fst c ! i) (snd c)
              in ((fst c)[i := fst r], snd r))
        else c)"

fun steps_left :: "int \<Rightarrow> ('p, 'v) pc \<Rightarrow> nat" where
  "steps_left n Start = Suc (2 * nat n)"
| "steps_left n (Loop s k) = 2 * k"
| "steps_left n (Body s k trial) = Suc (2 * k)"
| "steps_left n (Raised e) = 0"

text \<open>\<^verbatim>\<open>joblib.Parallel\<close> returns when every call has ended: after the schedule, the workers
  still running are run to their end, in index order, so that every schedule gives a
  complete batch and every complete interleaving is the batch of its own schedule. (What
  the other workers still do once one of them has raised is not fixed by the notebook; no
  property below depends on it.)\<close>

fun finish_all ::
  "(('p, 'v) trial \<Rightarrow> error + 'v) \<Rightarrow> (nat \<Rightarrow> 'p) \<Rightarrow> nat
     \<Rightarrow> ('p, 'v) worker list \<times> ('p, 'v) journal \<Rightarrow> ('p, 'v) worker list \<times> ('p, 'v) journal" where
  "finish_all objective sampler 0 c = c"
| "finish_all objective sampler (Suc i) c =
     (let c1 = finish_all objective sampler i c;
          w = fst c1 ! i
      in run_schedule objective sampler (replicate (steps_left (n_trials w) (pc w)) i) c1)"

definition parallel ::
  "(('p, 'v) trial \<Rightarrow> error + 'v) \<Rightarrow> (nat \<Rightarrow> 'p) \<Rightarrow> nat list \<Rightarrow> int list
     \<Rightarrow> ('p, 'v) journal \<Rightarrow> ('p, 'v) worker list \<times> ('p, 'v) journal" where
  "parallel objective sampler sched args_list storage =
     finish_all objective sampler (length args_list)
       (run_schedule objective sampler sched (map init_worker args_list, storage))"

text \<open>The exception \<^verbatim>\<open>joblib.Parallel\<close> raises in the driver: that of the first worker, in
  index order, that ended with one.\<close>

fun raised_in :: "('p, 'v) pc \<Rightarrow> error option" where
  "raised_in (Raised e) = Some e"
| "raised_in p = None"

definition first_raised :: "('p, 'v) worker list \<Rightarrow> error option" where
  "first_raised ws = (case List.map_filter (\<lambda>w. raised_in (pc w)) ws of
                        [] \<Rightarrow> None | e # es \<Rightarrow> Some e)"

section \<open>The notebook: the timing loop\<close>

text \<open>
  \<^verbatim>\<open>
  n_processes = [1, 2, 4, 8]
  times = []
  for n_process in n_processes:
      print("")
      print(f"Optimization with n_process = {n_process}")
      start = time.time()
      n_trials_per_process = nb_trials // n_process
      args_list = [n_trials_per_process for i in range(n_process)]
      joblib.Parallel(n_jobs=n_process)(joblib.delayed(optimize_study)(args) for args in args_list)
      end = time.time()
      times.append(end - start)
      print(f"Done in {str(datetime.timedelta(seconds=end-start))}")
  \<close>
  Each iteration is given its environment: the schedule of its workers and the two clock
  readings. A printed line is kept as its kind and its number, not as formatted text.
\<close>

definition n_processes :: "int list" where
  "n_processes = [1, 2, 4, 8]"

definition n_trials_per_process :: "int \<Rightarrow> int \<Rightarrow> int" where
  "n_trials_per_process nb n_process = nb div n_process"

definition args_list :: "int \<Rightarrow> int \<Rightarrow> int list" where
  "args_list nb n_process = replicate (nat n_process) (n_trials_per_process nb n_process)"

datatype output_line = Blank | OptimizationWith int | DoneIn real

record ('p, 'v) notebook =
  storage :: "('p, 'v) journal"
  times_list :: "real list"
  printed :: "output_line list"

definition run_config ::
  "(('p, 'v) trial \<Rightarrow> error + 'v) \<Rightarrow> (nat \<Rightarrow> 'p) \<Rightarrow> int \<Rightarrow> int \<Rightarrow> nat list \<times> real \<times> real
     \<Rightarrow> ('p, 'v) notebook \<Rightarrow> error option \<times> ('p, 'v) notebook" where
  "run_config objective sampler nb n_process env st =
     (let sched = fst env; t_start = fst (snd env); t_end = snd (snd env);
          st1 = st\<lparr>printed := printed st @ [Blank, OptimizationWith n_process]\<rparr>
      in if n_process = 0 then (Some ZeroDivisionError, st1)
         else (let r = parallel objective sampler sched (args_list nb n_process) (storage st1);
                   st2 = st1\<lparr>storage := snd r\<rparr>
               in case first_raised (fst r) of
                    Some e \<Rightarrow> (Some e, st2)
                  | None \<Rightarrow>
                      (None, st2\<lparr>times_list := times_list st2 @ [t_end - t_start],
                                 printed := printed st2 @ [DoneIn (t_end - t_start)]\<rparr>)))"

fun timing_loop ::
  "(('p, 'v) trial \<Rightarrow> error + 'v) \<Rightarrow> (nat \<Rightarrow> 'p) \<Rightarrow> int \<Rightarrow> (nat \<Rightarrow> nat list \<times> real \<times> real)
     \<Rightarrow> nat \<Rightarrow> int list \<Rightarrow> ('p, 'v) notebook \<Rightarrow> error option \<times> ('p, 'v) notebook" where
  "timing_loop objective sampler nb env k [] st = (None, st)"
| "timing_loop objective sampler nb env k (n_process # rest) st =
     (let r = run_config objective sampler nb n_process (env k) st
      in case fst r of
           Some e \<Rightarrow> r
         | None \<Rightarrow> timing_loop objective sampler nb env (Suc k) rest (snd r))"

definition timing_experiment ::
  "(('p, 'v) trial \<Rightarrow> error + 'v) \<Rightarrow> (nat \<Rightarrow> 'p) \<Rightarrow> (nat \<Rightarrow> nat list \<times> real \<times> real)
     \<Rightarrow> ('p, 'v) journal \<Rightarrow> error option \<times> ('p, 'v) notebook" where
  "timing_experiment objective sampler env j0 =
     timing_loop objective sampler nb_trials env 0 n_processes
       \<lparr>storage = j0, times_list = [], printed = []\<rparr>"

section \<open>Notions used to state and prove the properties\<close>

text \<open>The trial \<^verbatim>\<open>ask\<close> returns when \<open>i\<close> trials have been created, and the statuses of
  the trials of a journal, in id order.\<close>

definition new_trial :: "(nat \<Rightarrow> 'p) \<Rightarrow> nat \<Rightarrow> ('p, 'v) trial" where
  "new_trial sampler i =
     \<lparr>trial_id = i, parameters = sampler i, status = Running, trial_value = None\<rparr>"

definition statuses :: "('p, 'v) journal \<Rightarrow> status list" where
  "statuses j = map status (replay j)"

text \<open>A worker has finished when it has no step left: it has returned or raised.\<close>

definition finished :: "('p, 'v) worker \<Rightarrow> bool" where
  "finished w \<longleftrightarrow> steps_left (n_trials w) (pc w) = 0"

text \<open>The trial a worker holds between its ask and its tell, and that trial's id.\<close>

fun held_by :: "('p, 'v) pc \<Rightarrow> ('p, 'v) trial option" where
  "held_by (Body s k t) = Some t"
| "held_by p = None"

definition holding :: "('p, 'v) worker \<Rightarrow> nat option" where
  "holding w = map_option trial_id (held_by (pc w))"

text \<open>The trace of a worker agrees with its program point: the trial outstanding in the
  trace is the trial the worker holds.\<close>

definition tracked :: "('p, 'v) worker \<Rightarrow> bool" where
  "tracked w \<longleftrightarrow>
     (case pc w of
        Raised e \<Rightarrow> outstanding (trace w) \<noteq> None
      | p \<Rightarrow> outstanding (trace w) = Some (held_by p))"


text \<open>A worker may hold a trial only if the journal has created it and not completed it;
  in a coherent configuration the journal is well formed and no two workers hold the same
  trial.\<close>

definition holds_open :: "('p, 'v) journal \<Rightarrow> ('p, 'v) worker \<Rightarrow> bool" where
  "holds_open j w \<longleftrightarrow>
     (case holding w of None \<Rightarrow> True
      | Some a \<Rightarrow> a < length (created_ids j) \<and> a \<notin> set (completed_ids j))"

definition coherent :: "('p, 'v) worker list \<times> ('p, 'v) journal \<Rightarrow> bool" where
  "coherent c \<longleftrightarrow>
     well_formed (snd c) \<and>
     (\<forall>i < length (fst c). holds_open (snd c) (fst c ! i)) \<and>
     (\<forall>i < length (fst c). \<forall>k < length (fst c). i \<noteq> k \<longrightarrow>
        holding (fst c ! i) = None \<or> holding (fst c ! i) \<noteq> holding (fst c ! k))"

text \<open>A steady configuration is coherent and none of its workers has raised. The asks a
  worker has still to make, and their sum over the workers.\<close>

definition steady :: "('p, 'v) worker list \<times> ('p, 'v) journal \<Rightarrow> bool" where
  "steady c \<longleftrightarrow> coherent c \<and> list_all (\<lambda>w. raised_in (pc w) = None) (fst c)"

fun asks_left :: "int \<Rightarrow> ('p, 'v) pc \<Rightarrow> nat" where
  "asks_left n Start = nat n"
| "asks_left n (Loop s k) = k"
| "asks_left n (Body s k t) = k"
| "asks_left n (Raised e) = 0"

definition asks_pending :: "('p, 'v) worker list \<Rightarrow> nat" where
  "asks_pending ws = sum_list (map (\<lambda>w. asks_left (n_trials w) (pc w)) ws)"

text \<open>The worker a call of \<^verbatim>\<open>optimize_study\<close> ends as: returned, or raised with the
  exception of the run, its trace the actions of the run.\<close>

definition ended :: "int \<Rightarrow> ('p, 'v) run \<Rightarrow> ('p, 'v) worker" where
  "ended n r =
     \<lparr>n_trials = n,
      pc = (case raised r of None \<Rightarrow> Loop (fst (handle r)) 0 | Some e \<Rightarrow> Raised e),
      trace = actions r\<rparr>"

text \<open>What the timing loop appends to \<^verbatim>\<open>times\<close> and prints when every batch completes:
  one duration and three lines per configuration.\<close>

fun batch_times ::
  "(nat \<Rightarrow> nat list \<times> real \<times> real) \<Rightarrow> nat \<Rightarrow> int list \<Rightarrow> real list" where
  "batch_times env k [] = []"
| "batch_times env k (n # ns) =
     (snd (snd (env k)) - fst (snd (env k))) # batch_times env (Suc k) ns"

fun batch_lines ::
  "(nat \<Rightarrow> nat list \<times> real \<times> real) \<Rightarrow> nat \<Rightarrow> int list \<Rightarrow> output_line list" where
  "batch_lines env k [] = []"
| "batch_lines env k (n # ns) =
     [Blank, OptimizationWith n, DoneIn (snd (snd (env k)) - fst (snd (env k)))]
       @ batch_lines env (Suc k) ns"

section \<open>Workers and the journal they share\<close>

text \<open>The ids of the trials a worker has asked, in order, as its trace records them; the
  ids of the trials that are Running in the study replayed from a journal; and, of the
  trials a worker has asked, those the journal shows Running.\<close>

fun asked :: "('p, 'v) action \<Rightarrow> nat option" where
  "asked (Ask t) = Some (trial_id t)"
| "asked (Evaluate t) = None"
| "asked (Tell t v) = None"

definition asked_ids :: "('p, 'v) worker \<Rightarrow> nat list" where
  "asked_ids w = List.map_filter asked (trace w)"

definition running_ids :: "('p, 'v) journal \<Rightarrow> nat list" where
  "running_ids j = map trial_id (filter (\<lambda>t. status t = Running) (replay j))"

definition running_of :: "('p, 'v) journal \<Rightarrow> ('p, 'v) worker \<Rightarrow> nat list" where
  "running_of j w = filter (\<lambda>i. i \<in> set (running_ids j)) (asked_ids w)"

text \<open>The id of the trial outstanding in the trace of a worker, as a list of at most one
  element.\<close>

definition open_trial :: "('p, 'v) worker \<Rightarrow> nat list" where
  "open_trial w = (case outstanding (trace w) of Some (Some t) \<Rightarrow> [trial_id t] | _ \<Rightarrow> [])"

text \<open>The invariant that ties the traces to the journal: every trial a worker has asked
  is a trial of the journal, those of them that the journal shows Running are exactly the
  worker's outstanding trial, and no trial has been asked by two workers.\<close>

definition in_journal :: "('p, 'v) journal \<Rightarrow> ('p, 'v) worker \<Rightarrow> bool" where
  "in_journal j w \<longleftrightarrow>
     (\<forall>a \<in> set (asked_ids w). a < length (statuses j)) \<and>
     filter (\<lambda>a. statuses j ! a = Running) (asked_ids w) = open_trial w"

definition accounted :: "('p, 'v) worker list \<times> ('p, 'v) journal \<Rightarrow> bool" where
  "accounted c \<longleftrightarrow>
     (\<forall>i < length (fst c). in_journal (snd c) (fst c ! i)) \<and>
     (\<forall>i < length (fst c). \<forall>k < length (fst c). i \<noteq> k \<longrightarrow>
        set (asked_ids (fst c ! i)) \<inter> set (asked_ids (fst c ! k)) = {})"



section \<open>Example objectives\<close>

text \<open>An objective that raises where the sampled parameter is 2, 5 or 7 and returns 0
  otherwise, and one that always returns 0.\<close>

definition marker_objective :: "(nat, int) trial \<Rightarrow> error + int" where
  "marker_objective trial =
     (if parameters trial = 2 \<or> parameters trial = 5 \<or> parameters trial = 7
      then Inl (ObjectiveEvaluationError ''marker'') else Inr 0)"

definition constant_objective :: "(nat, int) trial \<Rightarrow> error + int" where
  "constant_objective trial = Inr 0"

section \<open>Properties of the journal and of ask and tell\<close>

lemma replay_snoc: "replay (es @ [e]) = apply_event (replay es) (content e)"
  by (simp add: replay_def)

lemma created_ids_snoc:
  "created_ids (j @ [e]) =
     created_ids j @ (case creation_of (content e) of None \<Rightarrow> [] | Some i \<Rightarrow> [i])"
  by (simp add: created_ids_def map_filter_def split: option.splits)

lemma completed_ids_snoc:
  "completed_ids (j @ [e]) =
     completed_ids j @ (case finishing_of (content e) of None \<Rightarrow> [] | Some i \<Rightarrow> [i])"
  by (simp add: completed_ids_def map_filter_def split: option.splits)

lemma ids_apply_event:
  "map trial_id (apply_event ts k) =
     map trial_id ts @ (case creation_of k of None \<Rightarrow> [] | Some i \<Rightarrow> [i])"
  by (cases k) (simp_all add: comp_def)

lemma ids_replay: "map trial_id (replay j) = created_ids j"
proof (induction j rule: rev_induct)
  case Nil
  show ?case by (simp add: replay_def created_ids_def map_filter_def)
next
  case (snoc e j)
  then show ?case by (simp add: replay_snoc ids_apply_event created_ids_snoc)
qed

lemma length_replay: "length (replay j) = length (created_ids j)"
  using ids_replay [of j] by (metis length_map)

lemma completions_snoc:
  "completions (j @ [e]) i =
     completions j i @ (case completion_of i (content e) of None \<Rightarrow> [] | Some out \<Rightarrow> [out])"
  by (simp add: completions_def map_filter_def split: option.splits)

lemma completion_of_None: "completion_of i k = None \<longleftrightarrow> finishing_of k \<noteq> Some i"
  by (cases k) auto

lemma length_completions: "length (completions j i) = count_list (completed_ids j) i"
proof (induction j rule: rev_induct)
  case Nil
  show ?case by (simp add: completions_def completed_ids_def map_filter_def)
next
  case (snoc e j)
  then show ?case
    by (cases "content e") (simp_all add: completions_snoc completed_ids_snoc)
qed

lemma told_None: "told j i = None \<longleftrightarrow> i \<notin> set (completed_ids j)"
proof -
  have "told j i = None \<longleftrightarrow> length (completions j i) = 0"
    by (simp add: told_def split: list.splits)
  then show ?thesis
    by (simp add: length_completions count_list_0_iff)
qed

lemma set_ids_replay: "trial_id ` set (replay j) = set (created_ids j)"
  using ids_replay [of j] by (metis set_map)

lemma journal_of_ask:
  "snd (snd (ask smp (s, j))) =
     j @ [\<lparr>sequence_number = length j,
           content = TrialCreated (length (created_ids j)) (smp (length (created_ids j)))\<rparr>]"
  by (simp add: ask_def Let_def journal_append_def read_all_def length_replay)

lemma trial_of_ask:
  "fst (ask smp (s, j)) =
     \<lparr>trial_id = length (created_ids j), parameters = smp (length (created_ids j)),
      status = Running, trial_value = None\<rparr>"
  by (simp add: ask_def Let_def journal_append_def read_all_def length_replay)

lemma well_formed_ask: "well_formed j \<Longrightarrow> well_formed (snd (snd (ask smp (s, j))))"
  unfolding journal_of_ask
  by (auto simp: well_formed_def created_ids_snoc completed_ids_snoc list_all_iff less_Suc_eq)

lemma creation_of_completion_event [simp]: "creation_of (completion_event i out) = None"
  by (cases out) simp_all

lemma finishing_of_completion_event [simp]: "finishing_of (completion_event i out) = Some i"
  by (cases out) simp_all

lemma completion_of_completion_event [simp]:
  "completion_of i (completion_event i out) = Some out"
  by (cases out) simp_all

lemma tell_cases:
  "tell t out (s, j) = Inr (s', j') \<Longrightarrow>
     trial_id t \<in> set (created_ids j) \<and>
     (told j (trial_id t) = None \<and>
        j' = j @ [\<lparr>sequence_number = length j, content = completion_event (trial_id t) out\<rparr>]
      \<or> told j (trial_id t) = Some out \<and> j' = j)"
  by (auto simp: tell_def Let_def journal_append_def read_all_def set_ids_replay
      split: if_splits option.splits)

lemma created_below: "well_formed j \<Longrightarrow> i \<in> set (created_ids j) \<longleftrightarrow> i < length (created_ids j)"
  unfolding well_formed_def by (metis atLeastLessThan_iff set_upt zero_le)

lemma well_formed_tell:
  assumes "tell t out (s, j) = Inr (s', j')" and "well_formed j"
  shows "well_formed j'"
proof -
  from tell_cases [OF assms(1)] have m: "trial_id t \<in> set (created_ids j)"
    and c: "told j (trial_id t) = None \<and>
        j' = j @ [\<lparr>sequence_number = length j, content = completion_event (trial_id t) out\<rparr>]
      \<or> j' = j"
    by auto
  from m assms(2) have "trial_id t < length (created_ids j)"
    by (simp add: created_below)
  with c assms(2) show ?thesis
    by (auto simp: well_formed_def created_ids_snoc completed_ids_snoc told_None)
qed

lemma told_after_tell:
  assumes "tell t out (s, j) = Inr (s', j')"
  shows "told j' (trial_id t) = Some out"
proof -
  have "told j (trial_id t) = None \<and>
        j' = j @ [\<lparr>sequence_number = length j, content = completion_event (trial_id t) out\<rparr>]
      \<or> told j (trial_id t) = Some out \<and> j' = j"
    using tell_cases [OF assms] by blast
  then show ?thesis
  proof (elim disjE conjE)
    assume n: "told j (trial_id t) = None"
      and e: "j' = j @ [\<lparr>sequence_number = length j, content = completion_event (trial_id t) out\<rparr>]"
    from n have "completions j (trial_id t) = []"
      by (simp add: told_def split: list.splits)
    with e show ?thesis by (simp add: told_def completions_snoc)
  next
    assume "told j (trial_id t) = Some out" and "j' = j"
    then show ?thesis by simp
  qed
qed

lemma tell_again:
  "told j (trial_id t) = Some out \<Longrightarrow> trial_id t \<in> set (created_ids j) \<Longrightarrow>
     tell t out' (s, j) =
       (if out' = out then Inr (s\<lparr>trials := replay j\<rparr>, j) else Inl DuplicateTellError)"
  by (simp add: tell_def Let_def read_all_def set_ids_replay)

lemma tell_unknown:
  "trial_id t \<notin> set (created_ids j) \<Longrightarrow> tell t out (s, j) = Inl UnknownTrialError"
  by (simp add: tell_def Let_def read_all_def set_ids_replay)

lemma created_ids_tell:
  "tell t out (s, j) = Inr (s', j') \<Longrightarrow> created_ids j' = created_ids j"
  by (auto dest!: tell_cases simp: created_ids_snoc)

lemma perform_journal:
  assumes "well_formed j" and "perform smp x (hs, j) = ((hs', j'), r)"
  shows "well_formed j' \<and>
    created_ids j' = created_ids j @ (case handed r of None \<Rightarrow> [] | Some i \<Rightarrow> [i])"
proof (cases x)
  case (Pair p c)
  show ?thesis
  proof (cases c)
    case AskCall
    with Pair assms(2) have j': "j' = snd (snd (ask smp (hs p, j)))"
      and r: "r = Asked (fst (ask smp (hs p, j)))"
      by (auto simp: Let_def)
    from assms(1) have "well_formed j'" unfolding j' by (rule well_formed_ask)
    moreover have "created_ids j' = created_ids j @ [length (created_ids j)]"
      unfolding j' journal_of_ask by (simp add: created_ids_snoc)
    ultimately show ?thesis by (simp add: r trial_of_ask)
  next
    case (TellCall t out)
    show ?thesis
    proof (cases "tell t out (hs p, j)")
      case (Inl e)
      with Pair TellCall assms show ?thesis by auto
    next
      case (Inr h)
      obtain s1 j1 where h: "h = (s1, j1)" by (cases h)
      from Inr h Pair TellCall assms(2) have "j' = j1" "r = Told" by auto
      with Inr h assms(1) show ?thesis
        by (auto dest: well_formed_tell created_ids_tell)
    qed
  qed
qed

lemma handed_out_Cons:
  "handed_out (r # rs) = (case handed r of None \<Rightarrow> [] | Some i \<Rightarrow> [i]) @ handed_out rs"
  by (simp add: handed_out_def map_filter_def split: option.splits)

lemma run_calls_journal:
  "well_formed j \<Longrightarrow> run_calls smp cs (hs, j) = ((hs', j'), rs) \<Longrightarrow>
     well_formed j' \<and> created_ids j' = created_ids j @ handed_out rs"
proof (induction cs arbitrary: hs j rs)
  case Nil
  then show ?case by (simp add: handed_out_def map_filter_def)
next
  case (Cons x cs)
  obtain hs1 j1 r where p: "perform smp x (hs, j) = ((hs1, j1), r)"
    by (metis surj_pair)
  define rs1 where "rs1 = snd (run_calls smp cs (hs1, j1))"
  have rest: "run_calls smp cs (hs1, j1) = ((hs', j'), rs1)" and rs: "rs = r # rs1"
    using Cons.prems(2) p by (auto simp: Let_def rs1_def prod_eq_iff)
  from perform_journal [OF Cons.prems(1) p]
  have w1: "well_formed j1"
    and c1: "created_ids j1 = created_ids j @ (case handed r of None \<Rightarrow> [] | Some i \<Rightarrow> [i])"
    by auto
  from Cons.IH [OF w1 rest] show ?case
    by (simp add: c1 rs handed_out_Cons)
qed

lemma well_formed_Nil: "well_formed []"
  by (simp add: well_formed_def created_ids_def completed_ids_def map_filter_def)

lemma distinct_replay_ids: "well_formed j \<Longrightarrow> distinct (map trial_id (replay j))"
  unfolding ids_replay well_formed_def by (metis distinct_upt)

lemma sorted_created_ids: "well_formed j \<Longrightarrow> sorted_wrt (<) (created_ids j)"
  unfolding well_formed_def by (metis sorted_wrt_upt)

lemma count_list_distinct: "distinct xs \<Longrightarrow> x \<in> set xs \<Longrightarrow> count_list xs x = 1"
  by (induction xs) auto

lemma completions_once:
  "well_formed j \<Longrightarrow> told j i = Some out \<Longrightarrow> length (completions j i) = 1"
proof -
  assume w: "well_formed j" and t: "told j i = Some out"
  from t have "i \<in> set (completed_ids j)"
    using told_None [of j i] by auto
  moreover from w have "distinct (completed_ids j)" by (simp add: well_formed_def)
  ultimately show ?thesis
    by (simp add: length_completions count_list_distinct)
qed

lemma told_created:
  "well_formed j \<Longrightarrow> told j i = Some out \<Longrightarrow> i \<in> set (created_ids j)"
proof -
  assume w: "well_formed j" and t: "told j i = Some out"
  from t have "i \<in> set (completed_ids j)"
    using told_None [of j i] by auto
  with w have "i < length (created_ids j)"
    by (auto simp: well_formed_def list_all_iff)
  with w show ?thesis by (simp add: created_below)
qed

lemma replay_append_all: "replay (append_all ks j) = foldl apply_event (replay j) ks"
  unfolding append_all_def
  by (induction ks arbitrary: j) (simp_all add: journal_append_def replay_snoc)

lemma study_update_trials:
  "(s :: ('p, 'v) study)\<lparr>trials := ts\<rparr> = \<lparr>name = name s, direction = direction s, trials = ts\<rparr>"
  by (cases s) simp

lemma view_of_ask:
  "fst (snd (ask smp (s, j))) = open_study (name s) (direction s) (snd (snd (ask smp (s, j))))"
  by (simp add: ask_def Let_def journal_append_def read_all_def open_study_def replay_snoc
      study_update_trials)

lemma view_of_tell:
  "tell t out (s, j) = Inr (s', j') \<Longrightarrow> s' = open_study (name s) (direction s) j'"
  by (auto simp: tell_def Let_def journal_append_def read_all_def open_study_def replay_snoc
      study_update_trials split: if_splits option.splits)

lemma perform_names:
  "perform smp x (hs, j) = ((hs', j'), r) \<Longrightarrow>
     name (hs' q) = name (hs q) \<and> direction (hs' q) = direction (hs q)"
proof (cases x)
  case (Pair p c)
  assume a: "perform smp x (hs, j) = ((hs', j'), r)"
  show ?thesis
  proof (cases c)
    case AskCall
    with Pair a show ?thesis
      by (auto simp: Let_def view_of_ask open_study_def)
  next
    case (TellCall t out)
    with Pair a show ?thesis
      by (cases "tell t out (hs p, j)")
         (auto simp: open_study_def dest!: view_of_tell)
  qed
qed

lemma run_calls_names:
  "run_calls smp cs (hs, j) = ((hs', j'), rs) \<Longrightarrow>
     name (hs' q) = name (hs q) \<and> direction (hs' q) = direction (hs q)"
proof (induction cs arbitrary: hs j rs)
  case Nil
  then show ?case by simp
next
  case (Cons x cs)
  obtain hs1 j1 r where p: "perform smp x (hs, j) = ((hs1, j1), r)"
    by (metis surj_pair)
  define rs1 where "rs1 = snd (run_calls smp cs (hs1, j1))"
  have rest: "run_calls smp cs (hs1, j1) = ((hs', j'), rs1)"
    using Cons.prems p by (auto simp: Let_def rs1_def prod_eq_iff)
  from Cons.IH [OF rest] perform_names [OF p] show ?case by simp
qed

lemma run_calls_snoc:
  "run_calls smp (cs @ [x]) c =
     (let r = run_calls smp cs c; q = perform smp x (fst r) in (fst q, snd r @ [snd q]))"
  by (induction cs arbitrary: c) (simp_all add: Let_def)

lemma perform_view:
  assumes "perform smp (p, c) (hs, j) = ((hs', j'), r)" and "\<forall>e. r \<noteq> Refused e"
  shows "hs' p = open_study (name (hs p)) (direction (hs p)) j'"
proof (cases c)
  case AskCall
  with assms(1) show ?thesis
    by (auto simp: Let_def view_of_ask)
next
  case (TellCall t out)
  with assms show ?thesis
    by (cases "tell t out (hs p, j)") (auto dest!: view_of_tell)
qed

lemma completed_below:
  "well_formed j \<Longrightarrow> a \<in> set (completed_ids j) \<Longrightarrow> a < length (created_ids j)"
  by (auto simp: well_formed_def list_all_iff)

text \<open>The study replayed from a stored journal is the trial set its events record.\<close>

lemma stored_Nil: "stored []"
  by (simp add: stored_def)

lemma stored_snoc: "stored (j @ [e]) \<longleftrightarrow> stored j \<and> admits j e"
proof -
  have "list_all (\<lambda>n. admits (take n (j @ [e])) ((j @ [e]) ! n)) [0..<length j]
      = list_all (\<lambda>n. admits (take n j) (j ! n)) [0..<length j]"
    by (rule list.pred_cong) (simp_all add: nth_append)
  then show ?thesis
    unfolding stored_def by (simp del: admits.simps)
qed

lemma stored_well_formed: "stored j \<Longrightarrow> well_formed j"
proof (induction j rule: rev_induct)
  case Nil
  show ?case by (rule well_formed_Nil)
next
  case (snoc e j)
  from snoc.prems have s: "stored j" and a: "admits j e" by (simp_all add: stored_snoc del: admits.simps)
  from snoc.IH [OF s] have w: "well_formed j" .
  show ?case
  proof (cases "content e")
    case (TrialCreated i p)
    with a w show ?thesis
      by (auto simp: well_formed_def created_ids_snoc completed_ids_snoc list_all_iff)
  next
    case (TrialCompleted i v)
    with a w created_below [OF w, of i] show ?thesis
      by (auto simp: well_formed_def created_ids_snoc completed_ids_snoc list_all_iff)
  next
    case (TrialFailed i x)
    with a w created_below [OF w, of i] show ?thesis
      by (auto simp: well_formed_def created_ids_snoc completed_ids_snoc list_all_iff)
  qed
qed

lemma sampled_snoc:
  "sampled (j @ [e]) i =
     (case sampled j i of None \<Rightarrow> sampling_of i (content e) | Some p \<Rightarrow> Some p)"
  by (cases "List.map_filter (sampling_of i) (map content j)")
     (auto simp: sampled_def map_filter_def split: option.splits list.splits)

lemma told_snoc:
  "told (j @ [e]) i =
     (case told j i of None \<Rightarrow> completion_of i (content e) | Some out \<Rightarrow> Some out)"
  by (cases "completions j i")
     (auto simp: told_def completions_snoc split: option.splits list.splits)

lemma sampling_of_None: "sampling_of i k = None \<longleftrightarrow> creation_of k \<noteq> Some i"
  by (cases k) auto

lemma sampled_None: "sampled j i = None \<longleftrightarrow> i \<notin> set (created_ids j)"
proof (induction j rule: rev_induct)
  case Nil
  show ?case by (simp add: sampled_def created_ids_def map_filter_def)
next
  case (snoc e j)
  then show ?case
    by (cases "content e")
       (auto simp: sampled_snoc created_ids_snoc split: option.splits)
qed

lemma map_filter_cong_set:
  "(\<And>x. x \<in> set xs \<Longrightarrow> f x = g x) \<Longrightarrow> List.map_filter f xs = List.map_filter g xs"
proof (induction xs)
  case Nil
  show ?case by (simp add: map_filter_simps)
next
  case (Cons a xs)
  then have "f a = g a" and "List.map_filter f xs = List.map_filter g xs" by simp_all
  then show ?case by (simp add: map_filter_simps split: option.splits)
qed

lemma map_map_filter:
  "map f (List.map_filter g xs) = List.map_filter (\<lambda>x. map_option f (g x)) xs"
  by (induction xs) (simp_all add: map_filter_simps split: option.splits)

lemma map_filter_snoc:
  "List.map_filter f (xs @ [x]) =
     List.map_filter f xs @ (case f x of None \<Rightarrow> [] | Some y \<Rightarrow> [y])"
  by (simp add: map_filter_def split: option.splits)

lemma recorded_replay: "stored j \<Longrightarrow> replay j = recorded_trials j"
proof (induction j rule: rev_induct)
  case Nil
  show ?case by (simp add: replay_def recorded_trials_def created_ids_def map_filter_def)
next
  case (snoc e j)
  from snoc.prems have s: "stored j" and a: "admits j e"
    by (simp_all add: stored_snoc del: admits.simps)
  from snoc.IH [OF s] have ih: "replay j = recorded_trials j" .
  from s have w: "well_formed j" by (rule stored_well_formed)
  let ?k = "length (created_ids j)"
  have known: "\<exists>p. sampled j i = Some p" if "i \<in> set (created_ids j)" for i
    using that sampled_None [of j i] by (cases "sampled j i") simp_all
  show ?case
  proof (cases "content e")
    case (TrialCreated i p)
    with a have i: "i = ?k" by simp
    have nk: "?k \<notin> set (created_ids j)" using created_below [OF w, of ?k] by simp
    have nc: "?k \<notin> set (completed_ids j)" using completed_below [OF w, of ?k] by auto
    have old: "recorded (j @ [e]) x = recorded j x" if "x \<in> set (created_ids j)" for x
      using known [OF that] TrialCreated
      by (auto simp: recorded_def sampled_snoc told_snoc split: option.splits)
    have new: "recorded (j @ [e]) ?k =
        Some \<lparr>trial_id = ?k, parameters = p, status = Running, trial_value = None\<rparr>"
      using nk nc TrialCreated i
      by (simp add: recorded_def sampled_snoc told_snoc sampled_None [THEN iffD2]
          told_None [THEN iffD2])
    have "recorded_trials (j @ [e]) =
        List.map_filter (recorded (j @ [e])) (created_ids j) @
          [\<lparr>trial_id = ?k, parameters = p, status = Running, trial_value = None\<rparr>]"
      using TrialCreated i new
      by (simp add: recorded_trials_def created_ids_snoc map_filter_snoc)
    also have "List.map_filter (recorded (j @ [e])) (created_ids j) = recorded_trials j"
      unfolding recorded_trials_def by (rule map_filter_cong_set) (rule old)
    finally show ?thesis
      using TrialCreated i ih by (simp add: replay_snoc)
  next
    case (TrialCompleted i v)
    with a have ic: "i \<in> set (created_ids j)" and nc: "i \<notin> set (completed_ids j)" by simp_all
    from nc have tn: "told j i = None" by (simp add: told_None)
    let ?f = "\<lambda>t :: ('a, 'b) trial.
        if trial_id t = i then t\<lparr>status := Complete, trial_value := Some v\<rparr> else t"
    have upd: "recorded (j @ [e]) x = map_option ?f (recorded j x)"
      if "x \<in> set (created_ids j)" for x
      using known [OF that] TrialCompleted tn
      by (auto simp: recorded_def sampled_snoc told_snoc split: option.splits)
    have "recorded_trials (j @ [e]) = List.map_filter (recorded (j @ [e])) (created_ids j)"
      using TrialCompleted by (simp add: recorded_trials_def created_ids_snoc)
    also have "\<dots> = List.map_filter (\<lambda>x. map_option ?f (recorded j x)) (created_ids j)"
      by (rule map_filter_cong_set) (rule upd)
    also have "\<dots> = map ?f (recorded_trials j)"
      by (simp add: recorded_trials_def map_map_filter)
    finally show ?thesis
      using TrialCompleted ih by (simp add: replay_snoc)
  next
    case (TrialFailed i x)
    with a have ic: "i \<in> set (created_ids j)" and nc: "i \<notin> set (completed_ids j)" by simp_all
    from nc have tn: "told j i = None" by (simp add: told_None)
    let ?f = "\<lambda>t :: ('a, 'b) trial. if trial_id t = i then t\<lparr>status := Failed\<rparr> else t"
    have upd: "recorded (j @ [e]) y = map_option ?f (recorded j y)"
      if "y \<in> set (created_ids j)" for y
      using known [OF that] TrialFailed tn
      by (auto simp: recorded_def sampled_snoc told_snoc split: option.splits)
    have "recorded_trials (j @ [e]) = List.map_filter (recorded (j @ [e])) (created_ids j)"
      using TrialFailed by (simp add: recorded_trials_def created_ids_snoc)
    also have "\<dots> = List.map_filter (\<lambda>y. map_option ?f (recorded j y)) (created_ids j)"
      by (rule map_filter_cong_set) (rule upd)
    also have "\<dots> = map ?f (recorded_trials j)"
      by (simp add: recorded_trials_def map_map_filter)
    finally show ?thesis
      using TrialFailed ih by (simp add: replay_snoc)
  qed
qed

lemma perform_stored:
  assumes "stored j" and "perform smp x (hs, j) = ((hs', j'), r)"
  shows "stored j'"
proof (cases x)
  case (Pair p c)
  show ?thesis
  proof (cases c)
    case AskCall
    with Pair assms(2) have "j' = snd (snd (ask smp (hs p, j)))"
      by (auto simp: Let_def)
    with assms(1) show ?thesis
      by (simp add: journal_of_ask stored_snoc)
  next
    case (TellCall t out)
    show ?thesis
    proof (cases "tell t out (hs p, j)")
      case (Inl e)
      with Pair TellCall assms show ?thesis by auto
    next
      case (Inr h)
      with Pair TellCall assms(2) have j': "j' = snd h" by auto
      from Inr have "tell t out (hs p, j) = Inr (fst h, j')" by (simp add: j')
      from tell_cases [OF this]
      have m: "trial_id t \<in> set (created_ids j)"
        and d: "told j (trial_id t) = None \<and>
            j' = j @ [\<lparr>sequence_number = length j, content = completion_event (trial_id t) out\<rparr>]
          \<or> told j (trial_id t) = Some out \<and> j' = j"
        by blast+
      from d show ?thesis
      proof
        assume a: "told j (trial_id t) = None \<and>
            j' = j @ [\<lparr>sequence_number = length j, content = completion_event (trial_id t) out\<rparr>]"
        then have "trial_id t \<notin> set (completed_ids j)" by (simp add: told_None)
        with a m assms(1) show ?thesis
          by (cases out) (simp_all add: stored_snoc)
      next
        assume "told j (trial_id t) = Some out \<and> j' = j"
        with assms(1) show ?thesis by simp
      qed
    qed
  qed
qed

lemma run_calls_stored:
  "stored j \<Longrightarrow> run_calls smp cs (hs, j) = ((hs', j'), rs) \<Longrightarrow> stored j'"
proof (induction cs arbitrary: hs j rs)
  case Nil
  then show ?case by simp
next
  case (Cons x cs)
  obtain hs1 j1 r where p: "perform smp x (hs, j) = ((hs1, j1), r)"
    by (metis surj_pair)
  define rs1 where "rs1 = snd (run_calls smp cs (hs1, j1))"
  have rest: "run_calls smp cs (hs1, j1) = ((hs', j'), rs1)"
    using Cons.prems(2) p by (auto simp: Let_def rs1_def prod_eq_iff)
  from perform_stored [OF Cons.prems(1) p] have "stored j1" .
  from Cons.IH [OF this rest] show ?case .
qed
section \<open>The claims about the study and its journal\<close>

text \<open>
  Claim C1. Whatever calls any number of processes make on a journal that starts empty, in
  whatever order the store serves them, the ids the asks hand out are exactly the ids of
  the journal's \<^verbatim>\<open>TrialCreated\<close> events, in journal order; they are pairwise distinct
  and strictly increasing along the whole journal (they are \<open>0, 1, 2, ...\<close>), so no id is
  handed out twice, and the study replayed from the journal has at most one trial per id.
\<close>

theorem trial_ids_unique:
  "let r = run_calls smp cs (hs, []); j = snd (fst r); ids = handed_out (snd r)
   in created_ids j = ids \<and> distinct ids \<and> sorted_wrt (<) (created_ids j) \<and>
      created_ids j = [0..<length (created_ids j)] \<and>
      distinct (map trial_id (replay j))"
proof -
  obtain hs' j rs where r: "run_calls smp cs (hs, []) = ((hs', j), rs)"
    by (metis surj_pair)
  from run_calls_journal [OF well_formed_Nil r]
  have w: "well_formed j" and c: "created_ids j = handed_out rs"
    by (simp_all add: created_ids_def map_filter_def)
  have s: "sorted_wrt (<) (created_ids j)" by (rule sorted_created_ids [OF w])
  have u: "created_ids j = [0..<length (created_ids j)]"
    using w by (simp add: well_formed_def)
  have d: "distinct (created_ids j)" by (metis u distinct_upt)
  have dr: "distinct (map trial_id (replay j))" by (rule distinct_replay_ids [OF w])
  show ?thesis
    unfolding Let_def r fst_conv snd_conv c [symmetric]
    using s u d dr by blast
qed

theorem trial_ids_unique_witness:
  "handed_out (snd (run_calls (\<lambda>i. i)
      [(0, AskCall), (1, AskCall), (1, TellCall \<lparr>trial_id = 1, parameters = 1, status = Running, trial_value = None\<rparr> (Score (7::int))), (0, AskCall)]
      (\<lambda>p. open_study ''s'' Minimize [], []))) = [0, 1, 2::nat] \<and>
   created_ids (snd (fst (run_calls (\<lambda>i. i)
      [(0, AskCall), (1, AskCall), (1, TellCall \<lparr>trial_id = 1, parameters = 1, status = Running, trial_value = None\<rparr> (Score (7::int))), (0, AskCall)]
      (\<lambda>p. open_study ''s'' Minimize [], [])))) = [0, 1, 2]"
proof -
  have h: "handed_out (snd (run_calls (\<lambda>i. i)
      [(0, AskCall), (1, AskCall), (1, TellCall \<lparr>trial_id = 1, parameters = 1, status = Running, trial_value = None\<rparr> (Score (7::int))), (0, AskCall)]
      (\<lambda>p. open_study ''s'' Minimize [], []))) = [0, 1, 2::nat]"
    by code_simp
  from trial_ids_unique [of "\<lambda>i. i" "[(0, AskCall), (1, AskCall), (1, TellCall \<lparr>trial_id = 1, parameters = 1, status = Running, trial_value = None\<rparr> (Score (7::int))), (0, AskCall)]"
      "\<lambda>p. open_study ''s'' Minimize []"] h
  show ?thesis by (simp add: Let_def)
qed

text \<open>
  Claim C2. The study opened from a stored journal (its events replayed in sequence order)
  holds exactly the trials the events record: one trial per \<^verbatim>\<open>TrialCreated\<close> event, in
  creation order, with the id and the parameters of that event, Running if no completion
  record follows, Complete with the recorded value or Failed otherwise. Every journal that
  calls of \<^verbatim>\<open>ask\<close> and \<^verbatim>\<open>tell\<close> by any processes produce from a stored journal (the empty
  one included) is stored, so closing and reopening after any appends rebuilds this same
  trial set. The handle of the process whose call came last (and was accepted) is the study
  that reopening rebuilds, and the study opened after appending events is the study opened
  before with these events applied in order: replay is a function of the journal alone.
\<close>

theorem replay_round_trip:
  "(run_calls smp (cs @ [(p, c)]) (hs, j0) = ((hs', j'), rs) \<and> (\<forall>e. last rs \<noteq> Refused e)
      \<longrightarrow> open_study (name (hs p)) (direction (hs p)) j' = hs' p) \<and>
   trials (open_study n d (append_all ks j)) = foldl apply_event (trials (open_study n d j)) ks \<and>
   (stored j \<longrightarrow> trials (open_study n d j) = recorded_trials j) \<and>
   (stored js \<and> run_calls smp cs1 (hs1, js) = ((hs2, j2), rs2) \<longrightarrow>
      stored j2 \<and> trials (open_study n d j2) = recorded_trials j2)"
proof (intro conjI impI)
  assume a: "run_calls smp (cs @ [(p, c)]) (hs, j0) = ((hs', j'), rs) \<and> (\<forall>e. last rs \<noteq> Refused e)"
  obtain hs1 j1 rs1 where r1: "run_calls smp cs (hs, j0) = ((hs1, j1), rs1)"
    by (metis surj_pair)
  obtain r where q: "perform smp (p, c) (hs1, j1) = ((hs', j'), r)" and rs: "rs = rs1 @ [r]"
    using a r1 by (auto simp: run_calls_snoc Let_def prod_eq_iff)
  from a rs have nr: "\<forall>e. r \<noteq> Refused e" by simp
  from perform_view [OF q nr] run_calls_names [OF r1, of p]
  show "open_study (name (hs p)) (direction (hs p)) j' = hs' p" by simp
next
  show "trials (open_study n d (append_all ks j)) = foldl apply_event (trials (open_study n d j)) ks"
    by (simp add: open_study_def read_all_def replay_append_all)
next
  assume "stored j"
  then show "trials (open_study n d j) = recorded_trials j"
    by (simp add: open_study_def read_all_def recorded_replay)
next
  assume a: "stored js \<and> run_calls smp cs1 (hs1, js) = ((hs2, j2), rs2)"
  then show s: "stored j2" using run_calls_stored by blast
  then show "trials (open_study n d j2) = recorded_trials j2"
    by (simp add: open_study_def read_all_def recorded_replay)
qed

theorem replay_round_trip_witness:
  "open_study ''s'' Minimize
     [\<lparr>sequence_number = 0, content = TrialCreated 0 (0::nat)\<rparr>,
      \<lparr>sequence_number = 1, content = TrialCreated 1 1\<rparr>,
      \<lparr>sequence_number = 2, content = TrialCompleted 0 (7::int)\<rparr>]
   = fst (fst (run_calls (\<lambda>i. i)
        [(0, AskCall), (1, AskCall),
         (0, TellCall \<lparr>trial_id = 0, parameters = 0, status = Running, trial_value = None\<rparr> (Score 7))]
        (\<lambda>p. open_study ''s'' Minimize [], []))) 0 \<and>
   trials (open_study ''s'' Minimize
     [\<lparr>sequence_number = 0, content = TrialCreated 0 (0::nat)\<rparr>,
      \<lparr>sequence_number = 1, content = TrialCreated 1 1\<rparr>,
      \<lparr>sequence_number = 2, content = TrialCompleted 0 (7::int)\<rparr>])
   = [\<lparr>trial_id = 0, parameters = 0, status = Complete, trial_value = Some 7\<rparr>,
      \<lparr>trial_id = 1, parameters = 1, status = Running, trial_value = None\<rparr>]"
proof -
  let ?t = "\<lparr>trial_id = 0, parameters = 0::nat, status = Running, trial_value = None :: int option\<rparr>"
  let ?hs = "\<lambda>p::nat. open_study ''s'' Minimize ([] :: (nat, int) journal)"
  let ?cs = "[(0, AskCall), (1, AskCall)] :: (nat \<times> (nat, int) call) list"
  let ?j = "[\<lparr>sequence_number = 0, content = TrialCreated 0 (0::nat)\<rparr>,
      \<lparr>sequence_number = 1, content = TrialCreated 1 1\<rparr>,
      \<lparr>sequence_number = 2, content = TrialCompleted 0 (7::int)\<rparr>]"
  let ?r = "run_calls (\<lambda>i. i) (?cs @ [(0, TellCall ?t (Score 7))]) (?hs, [])"
  have j: "snd (fst ?r) = ?j" by code_simp
  have l: "snd ?r = [Asked ?t, Asked \<lparr>trial_id = 1, parameters = 1, status = Running, trial_value = None\<rparr>, Told]"
    by code_simp
  have r: "?r = ((fst (fst ?r), ?j), snd ?r)"
    unfolding j [symmetric] by simp
  have n: "\<forall>e. last (snd ?r) \<noteq> Refused e" unfolding l by simp
  have a: "name (?hs 0) = ''s''" "direction (?hs 0) = Minimize" by (simp_all add: open_study_def)
  have st: "stored ?j" by code_simp
  note th = replay_round_trip [of "\<lambda>i. i" ?cs 0 "TellCall ?t (Score 7)" ?hs "[]" "fst (fst ?r)" ?j "snd ?r"
      "''s''" Minimize "[]" ?j]
  have "open_study (name (?hs 0)) (direction (?hs 0)) ?j = fst (fst ?r) 0"
    by (rule th [THEN conjunct1, rule_format, OF conjI, OF r n])
  then have c1: "open_study ''s'' Minimize ?j = fst (fst ?r) 0"
    unfolding a .
  have "trials (open_study ''s'' Minimize ?j) = recorded_trials ?j"
    by (rule th [THEN conjunct2, THEN conjunct2, THEN conjunct1, rule_format, OF st])
  also have "\<dots> = [\<lparr>trial_id = 0, parameters = 0, status = Complete, trial_value = Some 7\<rparr>,
      \<lparr>trial_id = 1, parameters = 1, status = Running, trial_value = None\<rparr>]"
    by code_simp
  finally have c2: "trials (open_study ''s'' Minimize ?j) =
     [\<lparr>trial_id = 0, parameters = 0, status = Complete, trial_value = Some 7\<rparr>,
      \<lparr>trial_id = 1, parameters = 1, status = Running, trial_value = None\<rparr>]" .
  from c1 c2 show ?thesis by simp
qed

text \<open>
  Claim C6. On a journal the store produced, once a tell of a trial has been accepted:
  telling the same trial the same outcome again is accepted and leaves the journal as it
  is, and the journal holds exactly one completion record for that id; telling it another
  outcome fails with \<^verbatim>\<open>DuplicateTellError\<close>; and on every journal a tell for an id that
  journal never created fails with \<^verbatim>\<open>UnknownTrialError\<close>.
\<close>

theorem tell_idempotence_boundary:
  assumes "well_formed j" and "tell t out (s, j) = Inr (s1, j1)"
  shows "(\<exists>s2. tell t out (s1, j1) = Inr (s2, j1)) \<and>
         length (completions j1 (trial_id t)) = 1 \<and>
         (\<forall>out'. out' \<noteq> out \<longrightarrow> tell t out' (s1, j1) = Inl DuplicateTellError) \<and>
         (\<forall>u out' s' j'. trial_id u \<notin> set (created_ids j') \<longrightarrow>
            tell u out' (s', j') = Inl UnknownTrialError)"
proof -
  have w1: "well_formed j1" by (rule well_formed_tell [OF assms(2) assms(1)])
  have t1: "told j1 (trial_id t) = Some out" by (rule told_after_tell [OF assms(2)])
  have c1: "trial_id t \<in> set (created_ids j1)" by (rule told_created [OF w1 t1])
  have "tell t out (s1, j1) = Inr (s1\<lparr>trials := replay j1\<rparr>, j1)"
    by (simp add: tell_again [OF t1 c1])
  moreover have "length (completions j1 (trial_id t)) = 1"
    by (rule completions_once [OF w1 t1])
  moreover have "\<forall>out'. out' \<noteq> out \<longrightarrow> tell t out' (s1, j1) = Inl DuplicateTellError"
    by (simp add: tell_again [OF t1 c1])
  moreover have "\<forall>u out' s' j'. trial_id u \<notin> set (created_ids j') \<longrightarrow>
            tell u out' (s', j') = Inl UnknownTrialError"
    by (simp add: tell_unknown)
  ultimately show ?thesis by blast
qed

theorem tell_idempotence_boundary_witness:
  "(\<exists>s2. tell \<lparr>trial_id = 0, parameters = 0::nat, status = Running, trial_value = None\<rparr> (Score (5::int))
       (\<lparr>name = ''s'', direction = Minimize,
         trials = [\<lparr>trial_id = 0, parameters = 0, status = Complete, trial_value = Some 5\<rparr>]\<rparr>,
        [\<lparr>sequence_number = 0, content = TrialCreated 0 0\<rparr>,
         \<lparr>sequence_number = 1, content = TrialCompleted 0 5\<rparr>])
      = Inr (s2, [\<lparr>sequence_number = 0, content = TrialCreated 0 0\<rparr>,
                  \<lparr>sequence_number = 1, content = TrialCompleted 0 5\<rparr>])) \<and>
   length (completions [\<lparr>sequence_number = 0, content = TrialCreated 0 (0::nat)\<rparr>,
                        \<lparr>sequence_number = 1, content = TrialCompleted 0 (5::int)\<rparr>] 0) = 1 \<and>
   tell \<lparr>trial_id = 0, parameters = 0::nat, status = Running, trial_value = None\<rparr> (Score (6::int))
       (\<lparr>name = ''s'', direction = Minimize,
         trials = [\<lparr>trial_id = 0, parameters = 0, status = Complete, trial_value = Some 5\<rparr>]\<rparr>,
        [\<lparr>sequence_number = 0, content = TrialCreated 0 0\<rparr>,
         \<lparr>sequence_number = 1, content = TrialCompleted 0 5\<rparr>])
      = Inl DuplicateTellError \<and>
   tell \<lparr>trial_id = 3, parameters = 0::nat, status = Running, trial_value = None\<rparr> (Score (5::int))
       (\<lparr>name = ''s'', direction = Minimize,
         trials = [\<lparr>trial_id = 0, parameters = 0, status = Complete, trial_value = Some 5\<rparr>]\<rparr>,
        [\<lparr>sequence_number = 0, content = TrialCreated 0 0\<rparr>,
         \<lparr>sequence_number = 1, content = TrialCompleted 0 5\<rparr>])
      = Inl UnknownTrialError"
proof -
  let ?t = "\<lparr>trial_id = 0, parameters = 0::nat, status = Running, trial_value = None :: int option\<rparr>"
  let ?u = "\<lparr>trial_id = 3, parameters = 0::nat, status = Running, trial_value = None :: int option\<rparr>"
  let ?j = "[\<lparr>sequence_number = 0, content = TrialCreated 0 (0::nat)\<rparr>] :: (nat, int) journal"
  let ?j1 = "[\<lparr>sequence_number = 0, content = TrialCreated 0 (0::nat)\<rparr>,
              \<lparr>sequence_number = 1, content = TrialCompleted 0 (5::int)\<rparr>]"
  let ?s1 = "\<lparr>name = ''s'', direction = Minimize,
         trials = [\<lparr>trial_id = 0, parameters = 0::nat, status = Complete, trial_value = Some (5::int)\<rparr>]\<rparr>"
  have w: "well_formed ?j" by code_simp
  have t: "tell ?t (Score 5) (open_study ''s'' Minimize ?j, ?j) = Inr (?s1, ?j1)" by code_simp
  have u: "trial_id ?u \<notin> set (created_ids ?j1)" by code_simp
  have d: "Score (6::int) \<noteq> Score 5" by simp
  note r = tell_idempotence_boundary [OF w t]
  have c1: "\<exists>s2. tell ?t (Score 5) (?s1, ?j1) = Inr (s2, ?j1)"
    by (rule r [THEN conjunct1])
  have c2: "length (completions ?j1 (trial_id ?t)) = 1"
    by (rule r [THEN conjunct2, THEN conjunct1])
  have c3: "tell ?t (Score 6) (?s1, ?j1) = Inl DuplicateTellError"
    by (rule r [THEN conjunct2, THEN conjunct2, THEN conjunct1, rule_format, OF d])
  have c4: "tell ?u (Score 5) (?s1, ?j1) = Inl UnknownTrialError"
    by (rule r [THEN conjunct2, THEN conjunct2, THEN conjunct2, rule_format, OF u])
  from c2 have c2': "length (completions ?j1 0) = 1" by simp
  show ?thesis by (intro conjI c1 c2' c3 c4)
qed

section \<open>Properties of the workers and of the timing loop\<close>

lemma pc_step_finished:
  "steps_left n p = 0 \<Longrightarrow> pc_step obj smp n p j = (p, [], j)"
  by (cases p) (auto split: nat.splits)

lemma worker_step_finished:
  "steps_left (n_trials w) (pc w) = 0 \<Longrightarrow> worker_step obj smp w j = (w, j)"
  by (simp add: worker_step_def pc_step_finished)

lemma pc_step_decreases:
  "steps_left n (fst (pc_step obj smp n p j)) \<le> steps_left n p - 1"
proof (cases p)
  case (Loop s k)
  then show ?thesis by (cases k) (simp_all add: Let_def)
next
  case (Body s k t)
  then show ?thesis by (auto split: sum.splits)
qed simp_all

lemma n_trials_worker_step [simp]:
  "n_trials (fst (worker_step obj smp w j)) = n_trials w"
  by (simp add: worker_step_def Let_def)

lemma worker_step_decreases:
  "steps_left (n_trials w) (pc (fst (worker_step obj smp w j)))
     \<le> steps_left (n_trials w) (pc w) - 1"
  using pc_step_decreases [of "n_trials w" obj smp "pc w" j]
  by (simp add: worker_step_def Let_def)

lemma journal_grows_pc_step:
  "\<exists>es. snd (snd (pc_step obj smp n p j)) = j @ es"
proof (cases p)
  case (Loop s k)
  then show ?thesis by (cases k) (simp_all add: Let_def journal_of_ask)
next
  case (Body s k t)
  show ?thesis
  proof (cases "obj t")
    case (Inl e)
    with Body show ?thesis by simp
  next
    case (Inr v)
    show ?thesis
    proof (cases "tell t (Score v) (s, j)")
      case (Inl e)
      with Body Inr show ?thesis by simp
    next
      case r: (Inr h)
      obtain s' j' where h: "h = (s', j')" by (cases h)
      from tell_cases [OF r [unfolded h]] Body Inr r h show ?thesis by auto
    qed
  qed
qed simp_all

lemma journal_grows_worker_step:
  "\<exists>es. snd (worker_step obj smp w j) = j @ es"
  using journal_grows_pc_step [of obj smp "n_trials w" "pc w" j]
  by (simp add: worker_step_def Let_def)

lemma length_run_schedule [simp]:
  "length (fst (run_schedule obj smp sched c)) = length (fst c)"
  by (induction sched arbitrary: c) (simp_all add: Let_def)

lemma run_schedule_append:
  "run_schedule obj smp (a @ b) c = run_schedule obj smp b (run_schedule obj smp a c)"
  by (induction a arbitrary: c) simp_all

lemma journal_grows_run_schedule:
  "\<exists>es. snd (run_schedule obj smp sched c) = snd c @ es"
proof (induction sched arbitrary: c)
  case Nil
  show ?case by simp
next
  case (Cons i sched)
  show ?case
  proof (cases "i < length (fst c)")
    case True
    let ?r = "worker_step obj smp (fst c ! i) (snd c)"
    obtain es where es: "snd ?r = snd c @ es"
      using journal_grows_worker_step by blast
    from Cons.IH [of "((fst c)[i := fst ?r], snd ?r)"]
    obtain es' where "snd (run_schedule obj smp sched ((fst c)[i := fst ?r], snd ?r)) = snd ?r @ es'"
      by auto
    with True es show ?thesis by (simp add: Let_def)
  next
    case False
    with Cons.IH [of c] show ?thesis by simp
  qed
qed

text \<open>Running one worker for at least as many steps as it has left ends it and touches no
  other worker.\<close>

lemma run_one_others:
  "k \<noteq> i \<Longrightarrow> fst (run_schedule obj smp (replicate m i) c) ! k = fst c ! k"
  by (induction m arbitrary: c) (simp_all add: Let_def)

lemma run_one_finishes:
  "i < length (fst c) \<Longrightarrow> steps_left (n_trials (fst c ! i)) (pc (fst c ! i)) \<le> m \<Longrightarrow>
     steps_left (n_trials (fst (run_schedule obj smp (replicate m i) c) ! i))
       (pc (fst (run_schedule obj smp (replicate m i) c) ! i)) = 0"
proof (induction m arbitrary: c)
  case 0
  then show ?case by simp
next
  case (Suc m)
  let ?r = "worker_step obj smp (fst c ! i) (snd c)"
  let ?c = "((fst c)[i := fst ?r], snd ?r)"
  have "steps_left (n_trials (fst ?c ! i)) (pc (fst ?c ! i)) \<le> m"
    using Suc.prems worker_step_decreases [of "fst c ! i" obj smp "snd c"] by simp
  moreover have "i < length (fst ?c)" using Suc.prems by simp
  ultimately show ?case
    using Suc.IH [of ?c] Suc.prems(1) by (simp add: Let_def)
qed

lemma finished_stays:
  "i < length (fst c) \<Longrightarrow> finished (fst c ! i) \<Longrightarrow>
     finished (fst (run_schedule obj smp sched c) ! i)"
proof (induction sched arbitrary: c)
  case Nil
  then show ?case by simp
next
  case (Cons k sched)
  show ?case
  proof (cases "k < length (fst c)")
    case True
    let ?r = "worker_step obj smp (fst c ! k) (snd c)"
    let ?c = "((fst c)[k := fst ?r], snd ?r)"
    have "finished (fst ?c ! i)"
    proof (cases "k = i")
      case True
      with Cons.prems show ?thesis
        by (simp add: finished_def worker_step_finished)
    next
      case False
      with Cons.prems show ?thesis by simp
    qed
    moreover have "i < length (fst ?c)" using Cons.prems by simp
    ultimately have "finished (fst (run_schedule obj smp sched ?c) ! i)"
      by (rule Cons.IH [rotated])
    with True show ?thesis by (simp add: Let_def)
  next
    case False
    with Cons show ?thesis by simp
  qed
qed

lemma length_finish_all [simp]:
  "length (fst (finish_all obj smp n c)) = length (fst c)"
  by (induction n) (simp_all add: Let_def)

lemma finish_all_finishes:
  "n \<le> length (fst c) \<Longrightarrow> i < n \<Longrightarrow> finished (fst (finish_all obj smp n c) ! i)"
proof (induction n arbitrary: i)
  case 0
  then show ?case by simp
next
  case (Suc n)
  let ?c1 = "finish_all obj smp n c"
  let ?m = "steps_left (n_trials (fst ?c1 ! n)) (pc (fst ?c1 ! n))"
  have len: "n < length (fst ?c1)" using Suc.prems by simp
  show ?case
  proof (cases "i = n")
    case True
    from run_one_finishes [OF len, of ?m obj smp] True show ?thesis
      by (simp add: Let_def finished_def)
  next
    case False
    with Suc.prems have "i < n" by simp
    with Suc have f: "finished (fst ?c1 ! i)" by simp
    have "i < length (fst ?c1)" using \<open>i < n\<close> len by simp
    from finished_stays [OF this f] show ?thesis by (simp add: Let_def)
  qed
qed

lemma finish_all_schedule:
  "\<exists>sched. finish_all obj smp n c = run_schedule obj smp sched c"
proof (induction n)
  case 0
  have "finish_all obj smp 0 c = run_schedule obj smp [] c" by simp
  then show ?case by blast
next
  case (Suc n)
  then obtain sched where s: "finish_all obj smp n c = run_schedule obj smp sched c" by blast
  let ?c1 = "finish_all obj smp n c"
  let ?m = "steps_left (n_trials (fst ?c1 ! n)) (pc (fst ?c1 ! n))"
  have "finish_all obj smp (Suc n) c = run_schedule obj smp (sched @ replicate ?m n) c"
    by (simp add: Let_def run_schedule_append s)
  then show ?case by blast
qed

lemma parallel_schedule:
  "\<exists>sched'. parallel obj smp sched args j =
     run_schedule obj smp sched' (map init_worker args, j)"
proof -
  obtain s2 where "finish_all obj smp (length args) (run_schedule obj smp sched (map init_worker args, j))
      = run_schedule obj smp s2 (run_schedule obj smp sched (map init_worker args, j))"
    using finish_all_schedule by blast
  then have "parallel obj smp sched args j = run_schedule obj smp (sched @ s2) (map init_worker args, j)"
    by (simp add: parallel_def run_schedule_append)
  then show ?thesis by blast
qed

lemma parallel_finished:
  "i < length args \<Longrightarrow> finished (fst (parallel obj smp sched args j) ! i)"
  unfolding parallel_def by (rule finish_all_finishes) simp_all

lemma length_parallel [simp]: "length (fst (parallel obj smp sched args j)) = length args"
  by (simp add: parallel_def)

lemma outstanding_append: "outstanding (tr @ xs) = foldl track (outstanding tr) xs"
  by (simp add: outstanding_def)

lemma tracked_init: "tracked (init_worker n)"
  by (simp add: tracked_def init_worker_def outstanding_def)

lemma tracked_step: "tracked w \<Longrightarrow> tracked (fst (worker_step obj smp w j))"
proof (cases "pc w")
  case Start
  assume "tracked w"
  with Start show ?thesis by (simp add: tracked_def worker_step_def)
next
  case (Loop s k)
  assume "tracked w"
  with Loop show ?thesis
    by (cases k) (simp_all add: tracked_def worker_step_def Let_def outstanding_append)
next
  case (Body s k t)
  assume "tracked w"
  with Body show ?thesis
    by (auto simp: tracked_def worker_step_def Let_def outstanding_append split: sum.splits)
next
  case (Raised e)
  assume "tracked w"
  with Raised show ?thesis by (simp add: tracked_def worker_step_def)
qed

lemma list_all_update: "list_all P xs \<Longrightarrow> P x \<Longrightarrow> list_all P (xs[i := x])"
  using set_update_subset_insert [of xs i x] by (auto simp: list_all_iff)

lemma tracked_run_schedule:
  "list_all tracked (fst c) \<Longrightarrow> list_all tracked (fst (run_schedule obj smp sched c))"
proof (induction sched arbitrary: c)
  case Nil
  then show ?case by simp
next
  case (Cons i sched)
  show ?case
  proof (cases "i < length (fst c)")
    case True
    let ?r = "worker_step obj smp (fst c ! i) (snd c)"
    from Cons.prems True have "tracked (fst c ! i)" by (simp add: list_all_length)
    then have "tracked (fst ?r)" by (rule tracked_step)
    with Cons.prems have "list_all tracked ((fst c)[i := fst ?r])"
      by (simp add: list_all_update)
    then have "list_all tracked (fst (run_schedule obj smp sched ((fst c)[i := fst ?r], snd ?r)))"
      using Cons.IH [of "((fst c)[i := fst ?r], snd ?r)"] by simp
    with True show ?thesis by (simp add: Let_def)
  next
    case False
    with Cons show ?thesis by simp
  qed
qed

lemma asks_and_tells:
  "outstanding tr = Some h \<Longrightarrow>
     length (filter is_ask tr) = length (filter is_tell tr) + (if h = None then 0 else 1)"
proof (induction tr arbitrary: h rule: rev_induct)
  case Nil
  then show ?case by (simp add: outstanding_def)
next
  case (snoc a tr)
  from snoc.prems have t: "track (outstanding tr) a = Some h"
    by (simp add: outstanding_append)
  then obtain g where g: "outstanding tr = Some g"
    by (cases "outstanding tr") simp_all
  from snoc.IH [OF g] t g show ?case
    by (cases g; cases a) (auto split: if_splits)
qed

lemma tracked_outstanding: "tracked w \<Longrightarrow> outstanding (trace w) \<noteq> None"
  by (cases "pc w") (simp_all add: tracked_def)

lemma tell_first:
  "trial_id t \<in> set (created_ids j) \<Longrightarrow> told j (trial_id t) = None \<Longrightarrow>
     tell t out (s, j) =
       Inr (s\<lparr>trials := apply_event (replay j) (completion_event (trial_id t) out)\<rparr>,
            j @ [\<lparr>sequence_number = length j, content = completion_event (trial_id t) out\<rparr>])"
  by (simp add: tell_def Let_def read_all_def set_ids_replay journal_append_def)

text \<open>What one step of a worker does to the journal and to the trial the worker holds.\<close>

lemma step_effect:
  assumes w: "well_formed j" and h: "holds_open j w"
  shows "well_formed (snd (worker_step obj smp w j)) \<and>
    (snd (worker_step obj smp w j) = j \<and>
       (holding (fst (worker_step obj smp w j)) = holding w \<or>
        holding (fst (worker_step obj smp w j)) = None)
     \<or> holding w = None \<and>
        holding (fst (worker_step obj smp w j)) = Some (length (created_ids j)) \<and>
        created_ids (snd (worker_step obj smp w j)) = created_ids j @ [length (created_ids j)] \<and>
        completed_ids (snd (worker_step obj smp w j)) = completed_ids j
     \<or> (\<exists>a. holding w = Some a \<and>
        holding (fst (worker_step obj smp w j)) = None \<and>
        created_ids (snd (worker_step obj smp w j)) = created_ids j \<and>
        completed_ids (snd (worker_step obj smp w j)) = completed_ids j @ [a]))"
proof (cases "pc w")
  case Start
  with w show ?thesis by (simp add: worker_step_def holding_def)
next
  case (Loop s k)
  show ?thesis
  proof (cases k)
    case 0
    with Loop w show ?thesis by (simp add: worker_step_def holding_def)
  next
    case (Suc m)
    have "well_formed (snd (snd (ask smp (s, j))))" using w by (rule well_formed_ask)
    with Loop Suc show ?thesis
      by (simp add: worker_step_def holding_def Let_def trial_of_ask)
         (simp add: journal_of_ask created_ids_snoc completed_ids_snoc)
  qed
next
  case (Body s k t)
  show ?thesis
  proof (cases "obj t")
    case (Inl e)
    with Body w show ?thesis by (simp add: worker_step_def holding_def)
  next
    case (Inr v)
    from h Body have a: "trial_id t < length (created_ids j)"
      and n: "trial_id t \<notin> set (completed_ids j)"
      by (simp_all add: holds_open_def holding_def)
    from a w have c: "trial_id t \<in> set (created_ids j)" by (simp add: created_below)
    from n have u: "told j (trial_id t) = None" by (simp add: told_None)
    note tf = tell_first [OF c u, of "Score v" s]
    have "well_formed (j @ [\<lparr>sequence_number = length j, content = completion_event (trial_id t) (Score v)\<rparr>])"
      using tf w by (rule well_formed_tell)
    with Body Inr tf show ?thesis
      by (simp add: worker_step_def holding_def created_ids_snoc completed_ids_snoc)
  qed
next
  case (Raised e)
  with w show ?thesis by (simp add: worker_step_def holding_def)
qed

text \<open>With an objective that always returns a score, a step of a worker never raises, and
  every ask it makes is one less to make.\<close>

lemma step_no_raise:
  assumes w: "well_formed j" and h: "holds_open j w"
    and obj: "\<forall>t. \<exists>v. obj t = Inr v" and r: "raised_in (pc w) = None"
  shows "raised_in (pc (fst (worker_step obj smp w j))) = None \<and>
    length (created_ids (snd (worker_step obj smp w j))) +
      asks_left (n_trials w) (pc (fst (worker_step obj smp w j)))
    = length (created_ids j) + asks_left (n_trials w) (pc w)"
proof (cases "pc w")
  case Start
  then show ?thesis by (simp add: worker_step_def)
next
  case (Loop s k)
  then show ?thesis
    by (cases k) (simp_all add: worker_step_def Let_def journal_of_ask created_ids_snoc)
next
  case (Body s k t)
  from obj obtain v where v: "obj t = Inr v" by blast
  from h Body have a: "trial_id t < length (created_ids j)"
    and n: "trial_id t \<notin> set (completed_ids j)"
    by (simp_all add: holds_open_def holding_def)
  from a w have c: "trial_id t \<in> set (created_ids j)" by (simp add: created_below)
  from n have u: "told j (trial_id t) = None" by (simp add: told_None)
  note tf = tell_first [OF c u, of "Score v" s]
  from Body v tf show ?thesis
    by (simp add: worker_step_def created_ids_snoc)
next
  case (Raised e)
  with r show ?thesis by simp
qed

lemma coherent_step:
  assumes c: "coherent (ws, j)" and i: "i < length ws"
  shows "coherent (ws[i := fst (worker_step obj smp (ws ! i) j)],
                   snd (worker_step obj smp (ws ! i) j))"
proof -
  let ?w' = "fst (worker_step obj smp (ws ! i) j)"
  let ?j' = "snd (worker_step obj smp (ws ! i) j)"
  from c have wf: "well_formed j"
    and ho: "\<And>k. k < length ws \<Longrightarrow> holds_open j (ws ! k)"
    and un: "\<And>k l. k < length ws \<Longrightarrow> l < length ws \<Longrightarrow> k \<noteq> l \<Longrightarrow>
        holding (ws ! k) = None \<or> holding (ws ! k) \<noteq> holding (ws ! l)"
    by (auto simp: coherent_def)
  note se = step_effect [OF wf ho [OF i], of obj smp]
  have wf': "well_formed ?j'" by (rule se [THEN conjunct1])
  have eff: "?j' = j \<and> (holding ?w' = holding (ws ! i) \<or> holding ?w' = None)
     \<or> holding (ws ! i) = None \<and> holding ?w' = Some (length (created_ids j)) \<and>
        created_ids ?j' = created_ids j @ [length (created_ids j)] \<and>
        completed_ids ?j' = completed_ids j
     \<or> (\<exists>a. holding (ws ! i) = Some a \<and> holding ?w' = None \<and>
        created_ids ?j' = created_ids j \<and> completed_ids ?j' = completed_ids j @ [a])"
    by (rule se [THEN conjunct2])
  have nth: "\<And>k. k < length ws \<Longrightarrow> (ws[i := ?w']) ! k = (if k = i then ?w' else ws ! k)"
    using i by (simp add: nth_list_update)
  from eff show ?thesis
  proof (elim disjE conjE exE)
    assume j: "?j' = j" and h: "holding ?w' = holding (ws ! i)"
    have "holds_open j ?w'" using ho [OF i] h by (simp add: holds_open_def)
    with wf ho un h j show ?thesis
      by (auto simp: coherent_def nth)
  next
    assume j: "?j' = j" and h: "holding ?w' = None"
    have "holds_open j ?w'" using h by (simp add: holds_open_def)
    with wf ho un h j show ?thesis
      by (auto simp: coherent_def nth)
  next
    assume h0: "holding (ws ! i) = None"
      and h: "holding ?w' = Some (length (created_ids j))"
      and cr: "created_ids ?j' = created_ids j @ [length (created_ids j)]"
      and co: "completed_ids ?j' = completed_ids j"
    have fresh: "length (created_ids j) \<notin> set (completed_ids j)"
      using completed_below [OF wf] by blast
    have open_i: "holds_open ?j' ?w'"
      using h cr co fresh by (simp add: holds_open_def)
    have open_k: "holds_open ?j' (ws ! k)" if "k < length ws" for k
      using ho [OF that] cr co by (auto simp: holds_open_def split: option.splits)
    have other: "holding (ws ! k) \<noteq> Some (length (created_ids j))" if "k < length ws" for k
      using ho [OF that] by (auto simp: holds_open_def split: option.splits)
    show ?thesis
      unfolding coherent_def fst_conv snd_conv length_list_update
    proof (intro conjI allI impI)
      show "well_formed ?j'" by (rule wf')
    next
      fix k assume "k < length ws"
      then show "holds_open ?j' (ws[i := ?w'] ! k)"
        using open_i open_k by (simp add: nth)
    next
      fix k l assume k: "k < length ws" and l: "l < length ws" and kl: "k \<noteq> l"
      show "holding (ws[i := ?w'] ! k) = None \<or>
            holding (ws[i := ?w'] ! k) \<noteq> holding (ws[i := ?w'] ! l)"
        using un [OF k l kl] other [OF k] other [OF l] h k l kl
        by (auto simp: nth)
    qed
  next
    fix a
    assume h0: "holding (ws ! i) = Some a" and h: "holding ?w' = None"
      and cr: "created_ids ?j' = created_ids j" and co: "completed_ids ?j' = completed_ids j @ [a]"
    have open_i: "holds_open ?j' ?w'" using h by (simp add: holds_open_def)
    have open_k: "holds_open ?j' (ws ! k)" if "k < length ws" and "k \<noteq> i" for k
      using ho [OF that(1)] un [OF that(1) i that(2)] h0 cr co
      by (auto simp: holds_open_def split: option.splits)
    show ?thesis
      unfolding coherent_def fst_conv snd_conv length_list_update
    proof (intro conjI allI impI)
      show "well_formed ?j'" by (rule wf')
    next
      fix k assume "k < length ws"
      then show "holds_open ?j' (ws[i := ?w'] ! k)"
        using open_i open_k by (simp add: nth)
    next
      fix k l assume k: "k < length ws" and l: "l < length ws" and kl: "k \<noteq> l"
      show "holding (ws[i := ?w'] ! k) = None \<or>
            holding (ws[i := ?w'] ! k) \<noteq> holding (ws[i := ?w'] ! l)"
        using un [OF k l kl] h k l kl
        by (auto simp: nth)
    qed
  qed
qed

lemma coherent_run_schedule:
  "coherent c \<Longrightarrow> coherent (run_schedule obj smp sched c)"
proof (induction sched arbitrary: c)
  case Nil
  then show ?case by simp
next
  case (Cons i sched)
  show ?case
  proof (cases "i < length (fst c)")
    case True
    from Cons.prems have "coherent (fst c, snd c)" by simp
    from coherent_step [OF this True, of obj smp]
    have "coherent (run_schedule obj smp sched
        ((fst c)[i := fst (worker_step obj smp (fst c ! i) (snd c))],
         snd (worker_step obj smp (fst c ! i) (snd c))))"
      by (rule Cons.IH)
    with True show ?thesis by (simp add: Let_def)
  next
    case False
    with Cons show ?thesis by simp
  qed
qed

lemma coherent_init: "well_formed j \<Longrightarrow> coherent (map init_worker args, j)"
  by (simp add: coherent_def holds_open_def holding_def init_worker_def)

lemma sum_list_map_update:
  fixes f :: "'a \<Rightarrow> nat"
  shows "i < length ws \<Longrightarrow>
    sum_list (map f (ws[i := w])) + f (ws ! i) = sum_list (map f ws) + f w"
proof (induction ws arbitrary: i)
  case Nil
  then show ?case by simp
next
  case (Cons a ws)
  show ?case
  proof (cases i)
    case 0
    then show ?thesis by simp
  next
    case (Suc k)
    with Cons.prems have "k < length ws" by simp
    from Cons.IH [OF this] Suc show ?thesis by simp
  qed
qed

lemma steady_step:
  assumes obj: "\<forall>t. \<exists>v. obj t = Inr v" and s: "steady (ws, j)" and i: "i < length ws"
  shows "steady (ws[i := fst (worker_step obj smp (ws ! i) j)],
                 snd (worker_step obj smp (ws ! i) j)) \<and>
    length (created_ids (snd (worker_step obj smp (ws ! i) j))) +
      asks_pending (ws[i := fst (worker_step obj smp (ws ! i) j)])
    = length (created_ids j) + asks_pending ws"
proof -
  let ?w' = "fst (worker_step obj smp (ws ! i) j)"
  let ?j' = "snd (worker_step obj smp (ws ! i) j)"
  from s have c: "coherent (ws, j)" and nr: "list_all (\<lambda>w. raised_in (pc w) = None) ws"
    by (simp_all add: steady_def)
  from c i have wf: "well_formed j" and ho: "holds_open j (ws ! i)"
    by (simp_all add: coherent_def)
  from nr i have r: "raised_in (pc (ws ! i)) = None" by (simp add: list_all_length)
  note sn = step_no_raise [OF wf ho obj r, of smp]
  have r': "raised_in (pc ?w') = None" by (rule sn [THEN conjunct1])
  have cnt: "length (created_ids ?j') + asks_left (n_trials (ws ! i)) (pc ?w')
      = length (created_ids j) + asks_left (n_trials (ws ! i)) (pc (ws ! i))"
    by (rule sn [THEN conjunct2])
  have "steady (ws[i := ?w'], ?j')"
    using coherent_step [OF c i, of obj smp] nr r'
    by (simp add: steady_def list_all_update)
  moreover have "length (created_ids ?j') + asks_pending (ws[i := ?w'])
      = length (created_ids j) + asks_pending ws"
    using sum_list_map_update [OF i, of "\<lambda>w. asks_left (n_trials w) (pc w)" ?w'] cnt
    by (simp add: asks_pending_def)
  ultimately show ?thesis by blast
qed

lemma steady_run_schedule:
  assumes obj: "\<forall>t. \<exists>v. obj t = Inr v"
  shows "steady c \<Longrightarrow>
    steady (run_schedule obj smp sched c) \<and>
    length (created_ids (snd (run_schedule obj smp sched c))) +
      asks_pending (fst (run_schedule obj smp sched c))
    = length (created_ids (snd c)) + asks_pending (fst c)"
proof (induction sched arbitrary: c)
  case Nil
  then show ?case by simp
next
  case (Cons i sched)
  show ?case
  proof (cases "i < length (fst c)")
    case True
    let ?c1 = "((fst c)[i := fst (worker_step obj smp (fst c ! i) (snd c))],
                snd (worker_step obj smp (fst c ! i) (snd c)))"
    from Cons.prems have "steady (fst c, snd c)" by simp
    note st = steady_step [OF obj this True, of smp]
    from Cons.IH [of ?c1] st True show ?thesis by (simp add: Let_def)
  next
    case False
    with Cons show ?thesis by simp
  qed
qed

lemma steady_init: "well_formed j \<Longrightarrow> steady (map init_worker args, j)"
  by (simp add: steady_def coherent_init list_all_iff init_worker_def)

lemma asks_pending_init: "asks_pending (map init_worker args) = sum_list (map nat args)"
  by (simp add: asks_pending_def init_worker_def comp_def)

lemma asks_left_finished:
  "finished w \<Longrightarrow> raised_in (pc w) = None \<Longrightarrow> asks_left (n_trials w) (pc w) = 0"
  by (cases "pc w") (simp_all add: finished_def)

lemma asks_pending_finished:
  "list_all finished ws \<Longrightarrow> list_all (\<lambda>w. raised_in (pc w) = None) ws \<Longrightarrow> asks_pending ws = 0"
  by (induction ws) (simp_all add: asks_pending_def asks_left_finished)

text \<open>The batch as a whole, with an objective that always returns a score.\<close>

lemma parallel_steady:
  assumes obj: "\<forall>t. \<exists>v. obj t = Inr v" and wf: "well_formed j"
  shows "steady (parallel obj smp sched args j) \<and>
    length (created_ids (snd (parallel obj smp sched args j)))
      = length (created_ids j) + sum_list (map nat args) \<and>
    first_raised (fst (parallel obj smp sched args j)) = None"
proof -
  obtain sched' where p: "parallel obj smp sched args j =
      run_schedule obj smp sched' (map init_worker args, j)"
    using parallel_schedule by blast
  note st = steady_run_schedule [OF obj steady_init [OF wf], of smp sched' args]
  have s: "steady (parallel obj smp sched args j)"
    unfolding p by (rule st [THEN conjunct1])
  have cnt: "length (created_ids (snd (parallel obj smp sched args j))) +
      asks_pending (fst (parallel obj smp sched args j))
      = length (created_ids j) + sum_list (map nat args)"
    unfolding p using st [THEN conjunct2] by (simp add: asks_pending_init)
  have fin: "list_all finished (fst (parallel obj smp sched args j))"
    by (simp add: list_all_length parallel_finished)
  from s have nr: "list_all (\<lambda>w. raised_in (pc w) = None) (fst (parallel obj smp sched args j))"
    by (simp add: steady_def)
  from asks_pending_finished [OF fin nr] cnt
  have "length (created_ids (snd (parallel obj smp sched args j)))
      = length (created_ids j) + sum_list (map nat args)"
    by simp
  moreover have "first_raised (fst (parallel obj smp sched args j)) = None"
    using nr by (simp add: first_raised_def map_filter_def list_all_iff filter_empty_conv split: list.splits)
  ultimately show ?thesis using s by blast
qed

lemma iterations_append:
  "iterations a = Some xs \<Longrightarrow> iterations (a @ b) = map_option ((@) xs) (iterations b)"
proof (induction a arbitrary: xs rule: iterations.induct)
  case 1
  then show ?case by (simp add: option.map_ident)
next
  case (2 t t' t'' v rest)
  then show ?case
    by (cases "iterations b") (auto split: if_splits)
qed simp_all

lemma iterations_snoc:
  "iterations tr = Some its \<Longrightarrow>
     iterations (tr @ [Ask t, Evaluate t, Tell t v]) = Some (its @ [(t, v)])"
  by (simp add: iterations_append)

lemma asks_of_iterations:
  "iterations tr = Some its \<Longrightarrow>
     length (filter is_ask tr) = length its \<and> length (filter is_tell tr) = length its \<and>
     length tr = 3 * length its"
proof (induction tr arbitrary: its rule: iterations.induct)
  case 1
  then show ?case by simp
next
  case (2 t t' t'' v rest)
  then show ?case by (auto split: if_splits)
qed simp_all







lemma statuses_created:
  "statuses (j @ [\<lparr>sequence_number = n, content = TrialCreated i p\<rparr>]) = statuses j @ [Running]"
  by (simp add: statuses_def replay_snoc)

lemma length_statuses: "length (statuses j) = length (created_ids j)"
  by (simp add: statuses_def length_replay)

lemma nth_replay_id:
  assumes "well_formed j" and "i < length (replay j)"
  shows "trial_id (replay j ! i) = i"
proof -
  have "trial_id (replay j ! i) = map trial_id (replay j) ! i" using assms(2) by simp
  also have "\<dots> = [0..<length (created_ids j)] ! i"
    using assms(1) by (simp add: ids_replay well_formed_def)
  also have "\<dots> = i" using assms(2) by (simp add: length_replay)
  finally show ?thesis .
qed

lemma statuses_completed:
  assumes "well_formed j"
  shows "statuses (j @ [\<lparr>sequence_number = n, content = TrialCompleted a v\<rparr>])
    = (statuses j)[a := Complete]"
proof (rule nth_equalityI)
  show "length (statuses (j @ [\<lparr>sequence_number = n, content = TrialCompleted a v\<rparr>]))
      = length ((statuses j)[a := Complete])"
    by (simp add: statuses_def replay_snoc)
next
  fix i
  assume "i < length (statuses (j @ [\<lparr>sequence_number = n, content = TrialCompleted a v\<rparr>]))"
  then have i: "i < length (replay j)" by (simp add: statuses_def replay_snoc)
  from nth_replay_id [OF assms i] i
  show "statuses (j @ [\<lparr>sequence_number = n, content = TrialCompleted a v\<rparr>]) ! i
      = (statuses j)[a := Complete] ! i"
    by (simp add: statuses_def replay_snoc nth_list_update)
qed

text \<open>One iteration of the loop on a journal the store produced: the ask creates the next
  trial, and the tell of a score for it is accepted and completes it.\<close>

lemma ask_result:
  "ask smp (s, j) =
     (new_trial smp (length (created_ids j)), fst (snd (ask smp (s, j))),
      j @ [\<lparr>sequence_number = length j,
            content = TrialCreated (length (created_ids j)) (smp (length (created_ids j)))\<rparr>])"
  using trial_of_ask [of smp s j] journal_of_ask [of smp s j]
  by (simp add: new_trial_def prod_eq_iff)

lemma tell_after_ask:
  fixes smp :: "nat \<Rightarrow> 'a" and j :: "('a, 'b) journal"
  assumes wf: "well_formed j"
  defines "n0 \<equiv> length (created_ids j)"
  defines "j1 \<equiv> j @ [\<lparr>sequence_number = length j, content = TrialCreated n0 (smp n0)\<rparr>]"
  defines "j2 \<equiv> \<lambda>v. j1 @ [\<lparr>sequence_number = length j1, content = TrialCompleted n0 v\<rparr>]"
  shows "(\<exists>s2. tell (new_trial smp n0) (Score v) (s1, j1) = Inr (s2, j2 v)) \<and>
    well_formed (j2 v) \<and> created_ids (j2 v) = created_ids j @ [n0] \<and>
    statuses (j2 v) = statuses j @ [Complete]"
proof -
  let ?t = "new_trial smp n0 :: ('a, 'b) trial"
  have j1: "j1 = snd (snd (ask smp (s1, j)))"
    by (simp add: j1_def n0_def journal_of_ask)
  have wf1: "well_formed j1" unfolding j1 using wf by (rule well_formed_ask)
  have c1: "created_ids j1 = created_ids j @ [n0]"
    by (simp add: j1_def created_ids_snoc)
  have k1: "completed_ids j1 = completed_ids j"
    by (simp add: j1_def completed_ids_snoc)
  have "n0 \<notin> set (completed_ids j)"
    using completed_below [OF wf] by (auto simp: n0_def)
  then have u: "told j1 (trial_id ?t) = None"
    by (simp add: told_None k1 new_trial_def)
  have m: "trial_id ?t \<in> set (created_ids j1)" by (simp add: c1 new_trial_def)
  note tf = tell_first [OF m u, of "Score v" s1]
  from tf have t: "\<exists>s2. tell ?t (Score v) (s1, j1) = Inr (s2, j2 v)"
    by (simp add: new_trial_def j2_def)
  from well_formed_tell [OF tf wf1]
  have w2: "well_formed (j2 v)"
    by (simp add: new_trial_def j2_def)
  have c2: "created_ids (j2 v) = created_ids j @ [n0]"
    by (simp add: created_ids_snoc c1 j2_def)
  have "statuses (j2 v) = (statuses j1)[n0 := Complete]"
    unfolding j2_def by (rule statuses_completed [OF wf1])
  also have "\<dots> = statuses j @ [Complete]"
    by (simp add: j1_def statuses_created n0_def length_statuses [symmetric])
  finally have s2: "statuses (j2 v) = statuses j @ [Complete]" .
  from t w2 c2 s2 show ?thesis by blast
qed

lemma ask_obtain:
  obtains s1 where "ask smp (s, j) =
     (new_trial smp (length (created_ids j)), s1,
      j @ [\<lparr>sequence_number = length j,
            content = TrialCreated (length (created_ids j)) (smp (length (created_ids j)))\<rparr>])"
  using ask_result [of smp s j] by blast

lemma trial_loop_completes:
  "well_formed j \<Longrightarrow> iterations tr = Some its0 \<Longrightarrow>
   \<forall>i<k. \<exists>v. obj (new_trial smp (length (created_ids j) + i)) = Inr v \<Longrightarrow>
    raised (trial_loop obj smp k (s, j) tr) = None \<and>
    (\<exists>its. iterations (actions (trial_loop obj smp k (s, j) tr)) = Some (its0 @ its) \<and>
           length its = k \<and> (\<forall>x \<in> set its. obj (fst x) = Inr (snd x))) \<and>
    well_formed (snd (handle (trial_loop obj smp k (s, j) tr))) \<and>
    length (created_ids (snd (handle (trial_loop obj smp k (s, j) tr))))
      = length (created_ids j) + k \<and>
    statuses (snd (handle (trial_loop obj smp k (s, j) tr))) = statuses j @ replicate k Complete"
proof (induction k arbitrary: s j tr its0)
  case 0
  then show ?case by simp
next
  case (Suc k)
  let ?n0 = "length (created_ids j)"
  let ?t = "new_trial smp ?n0 :: ('a, 'b) trial"
  let ?j1 = "j @ [\<lparr>sequence_number = length j, content = TrialCreated ?n0 (smp ?n0)\<rparr>]"
  obtain s1 where a: "ask smp (s, j) = (?t, s1, ?j1)" by (rule ask_obtain)
  from Suc.prems(3) obtain v where v: "obj ?t = Inr v" by force
  define j2 where "j2 = ?j1 @ [\<lparr>sequence_number = length ?j1, content = TrialCompleted ?n0 v\<rparr>]"
  from tell_after_ask [OF Suc.prems(1), of smp v s1]
  obtain s2 where t: "tell ?t (Score v) (s1, ?j1) = Inr (s2, j2)"
    and ta2: "well_formed j2" and ta3: "created_ids j2 = created_ids j @ [?n0]"
    and ta4: "statuses j2 = statuses j @ [Complete]"
    unfolding j2_def by blast
  have step: "trial_loop obj smp (Suc k) (s, j) tr =
      trial_loop obj smp k (s2, j2) (tr @ [Ask ?t, Evaluate ?t, Tell ?t v])"
    by (simp add: Let_def a v t)
  have it: "iterations (tr @ [Ask ?t, Evaluate ?t, Tell ?t v]) = Some (its0 @ [(?t, v)])"
    by (rule iterations_snoc [OF Suc.prems(2)])
  have len2: "length (created_ids j2) = Suc ?n0" by (simp add: ta3)
  have p3: "\<forall>i<k. \<exists>v. obj (new_trial smp (length (created_ids j2) + i)) = Inr v"
  proof (intro allI impI)
    fix i assume "i < k"
    then have "Suc i < Suc k" by simp
    with Suc.prems(3) have "\<exists>v. obj (new_trial smp (?n0 + Suc i)) = Inr v" by blast
    then show "\<exists>v. obj (new_trial smp (length (created_ids j2) + i)) = Inr v"
      by (simp add: len2)
  qed
  note ih = Suc.IH [OF ta2 it p3, of s2]
  from ih obtain its where its: "iterations (actions (trial_loop obj smp k (s2, j2)
        (tr @ [Ask ?t, Evaluate ?t, Tell ?t v]))) = Some ((its0 @ [(?t, v)]) @ its)"
    and len: "length its = k" and ok: "\<forall>x \<in> set its. obj (fst x) = Inr (snd x)"
    by blast
  have "iterations (actions (trial_loop obj smp (Suc k) (s, j) tr)) = Some (its0 @ ((?t, v) # its))"
    unfolding step using its by simp
  moreover have "length ((?t, v) # its) = Suc k" using len by simp
  moreover have "\<forall>x \<in> set ((?t, v) # its). obj (fst x) = Inr (snd x)" using ok v by simp
  ultimately have ex: "\<exists>its. iterations (actions (trial_loop obj smp (Suc k) (s, j) tr))
      = Some (its0 @ its) \<and> length its = Suc k \<and> (\<forall>x \<in> set its. obj (fst x) = Inr (snd x))"
    by blast
  from ih have "raised (trial_loop obj smp (Suc k) (s, j) tr) = None"
    and "well_formed (snd (handle (trial_loop obj smp (Suc k) (s, j) tr)))"
    and "length (created_ids (snd (handle (trial_loop obj smp (Suc k) (s, j) tr))))
      = length (created_ids j) + Suc k"
    and "statuses (snd (handle (trial_loop obj smp (Suc k) (s, j) tr)))
      = statuses j @ replicate (Suc k) Complete"
    unfolding step by (simp_all add: ta3 ta4 replicate_app_Cons_same)
  with ex show ?case by blast
qed

lemma trial_loop_raises:
  "well_formed j \<Longrightarrow> m < k \<Longrightarrow>
   \<forall>i<m. \<exists>v. obj (new_trial smp (length (created_ids j) + i)) = Inr v \<Longrightarrow>
   obj (new_trial smp (length (created_ids j) + m)) = Inl e \<Longrightarrow>
    raised (trial_loop obj smp k (s, j) tr) = Some e \<and>
    statuses (snd (handle (trial_loop obj smp k (s, j) tr)))
      = statuses j @ replicate m Complete @ [Running] \<and>
    length (filter is_ask (actions (trial_loop obj smp k (s, j) tr)))
      = length (filter is_ask tr) + Suc m \<and>
    length (filter is_tell (actions (trial_loop obj smp k (s, j) tr)))
      = length (filter is_tell tr) + m"
proof (induction k arbitrary: s j tr m)
  case 0
  then show ?case by simp
next
  case (Suc k)
  let ?n0 = "length (created_ids j)"
  let ?t = "new_trial smp ?n0 :: ('a, 'b) trial"
  let ?j1 = "j @ [\<lparr>sequence_number = length j, content = TrialCreated ?n0 (smp ?n0)\<rparr>]"
  obtain s1 where a: "ask smp (s, j) = (?t, s1, ?j1)" by (rule ask_obtain)
  show ?case
  proof (cases m)
    case 0
    with Suc.prems(4) have "obj ?t = Inl e" by simp
    with 0 a show ?thesis
      by (simp add: Let_def statuses_created)
  next
    case m: (Suc m')
    from Suc.prems(3) m obtain v where v: "obj ?t = Inr v" by force
    define j2 where "j2 = ?j1 @ [\<lparr>sequence_number = length ?j1, content = TrialCompleted ?n0 v\<rparr>]"
    from tell_after_ask [OF Suc.prems(1), of smp v s1]
    obtain s2 where t: "tell ?t (Score v) (s1, ?j1) = Inr (s2, j2)"
      and ta2: "well_formed j2" and ta3: "created_ids j2 = created_ids j @ [?n0]"
      and ta4: "statuses j2 = statuses j @ [Complete]"
      unfolding j2_def by blast
    have step: "trial_loop obj smp (Suc k) (s, j) tr =
        trial_loop obj smp k (s2, j2) (tr @ [Ask ?t, Evaluate ?t, Tell ?t v])"
      by (simp add: Let_def a v t)
    have len: "length (created_ids j2) = Suc ?n0" by (simp add: ta3)
    have p3: "\<forall>i<m'. \<exists>v. obj (new_trial smp (length (created_ids j2) + i)) = Inr v"
    proof (intro allI impI)
      fix i assume "i < m'"
      then have "Suc i < m" using m by simp
      with Suc.prems(3) have "\<exists>v. obj (new_trial smp (?n0 + Suc i)) = Inr v" by blast
      then show "\<exists>v. obj (new_trial smp (length (created_ids j2) + i)) = Inr v"
        by (simp add: len)
    qed
    have p4: "obj (new_trial smp (length (created_ids j2) + m')) = Inl e"
      using Suc.prems(4) m by (simp add: len)
    have p2: "m' < k" using Suc.prems(2) m by simp
    note ih = Suc.IH [OF ta2 p2 p3 p4, of s2 "tr @ [Ask ?t, Evaluate ?t, Tell ?t v]"]
    from ih show ?thesis
      unfolding step by (simp add: ta4 m replicate_app_Cons_same)
  qed
qed

lemma journal_grows_parallel:
  "\<exists>es. snd (parallel obj smp sched args j) = j @ es"
proof -
  obtain sched' where p: "parallel obj smp sched args j =
      run_schedule obj smp sched' (map init_worker args, j)"
    using parallel_schedule by blast
  from journal_grows_run_schedule [of obj smp sched' "(map init_worker args, j)"]
  show ?thesis unfolding p by simp
qed

lemma sum_list_args:
  "sum_list (map nat (args_list nb n)) = nat n * nat (nb div n)"
  by (simp add: args_list_def n_trials_per_process_def sum_list_replicate)

text \<open>One configuration of the timing loop with an objective that always returns a score.\<close>

lemma run_config_steady:
  assumes obj: "\<forall>t. \<exists>v. obj t = Inr v" and wf: "well_formed (storage st)" and n: "n \<noteq> 0"
  shows "fst (run_config obj smp nb n env st) = None \<and>
    well_formed (storage (snd (run_config obj smp nb n env st))) \<and>
    length (created_ids (storage (snd (run_config obj smp nb n env st))))
      = length (created_ids (storage st)) + nat n * nat (nb div n) \<and>
    (\<exists>es. storage (snd (run_config obj smp nb n env st)) = storage st @ es) \<and>
    times_list (snd (run_config obj smp nb n env st))
      = times_list st @ [snd (snd env) - fst (snd env)] \<and>
    printed (snd (run_config obj smp nb n env st))
      = printed st @ [Blank, OptimizationWith n, DoneIn (snd (snd env) - fst (snd env))]"
proof -
  let ?p = "parallel obj smp (fst env) (args_list nb n) (storage st)"
  note ps = parallel_steady [OF obj wf, of smp "fst env" "args_list nb n"]
  have fr: "first_raised (fst ?p) = None" using ps by blast
  have w: "well_formed (snd ?p)" using ps by (simp add: steady_def coherent_def)
  have c: "length (created_ids (snd ?p)) = length (created_ids (storage st)) + nat n * nat (nb div n)"
    using ps by (simp add: sum_list_args)
  have g: "\<exists>es. snd ?p = storage st @ es" by (rule journal_grows_parallel)
  from n fr w c g show ?thesis
    by (simp add: run_config_def Let_def)
qed

lemma timing_loop_steady:
  assumes obj: "\<forall>t. \<exists>v. obj t = Inr v"
  shows "well_formed (storage st) \<Longrightarrow> 0 \<notin> set ns \<Longrightarrow>
    fst (timing_loop obj smp nb env k ns st) = None \<and>
    well_formed (storage (snd (timing_loop obj smp nb env k ns st))) \<and>
    length (created_ids (storage (snd (timing_loop obj smp nb env k ns st))))
      = length (created_ids (storage st)) + sum_list (map (\<lambda>n. nat n * nat (nb div n)) ns) \<and>
    (\<exists>es. storage (snd (timing_loop obj smp nb env k ns st)) = storage st @ es) \<and>
    times_list (snd (timing_loop obj smp nb env k ns st))
      = times_list st @ batch_times env k ns \<and>
    printed (snd (timing_loop obj smp nb env k ns st))
      = printed st @ batch_lines env k ns"
proof (induction ns arbitrary: k st)
  case Nil
  then show ?case by simp
next
  case (Cons n ns)
  let ?r = "run_config obj smp nb n (env k) st"
  from Cons.prems have n: "n \<noteq> 0" and ns: "0 \<notin> set ns" by auto
  note rc = run_config_steady [OF obj Cons.prems(1) n, of smp nb "env k"]
  have f: "fst ?r = None" using rc by blast
  have w: "well_formed (storage (snd ?r))" using rc by blast
  have step: "timing_loop obj smp nb env k (n # ns) st = timing_loop obj smp nb env (Suc k) ns (snd ?r)"
    by (simp add: Let_def f)
  note ih = Cons.IH [OF w ns, of "Suc k"]
  from rc obtain es where es: "storage (snd ?r) = storage st @ es" by blast
  from ih obtain es' where es': "storage (snd (timing_loop obj smp nb env (Suc k) ns (snd ?r)))
      = storage (snd ?r) @ es'" by blast
  have grow: "\<exists>es. storage (snd (timing_loop obj smp nb env k (n # ns) st)) = storage st @ es"
    unfolding step using es es' by simp
  from ih rc grow show ?case
    unfolding step by simp
qed

lemma take_grown: "\<exists>es. j' = j @ es \<Longrightarrow> take (length j) j' = j"
  by auto

text \<open>A lone worker: whatever the schedule, the batch of one call is that call of
  \<open>optimize_study\<close>.\<close>

lemma run_single:
  "run_schedule obj smp sched ([w], j) =
     run_schedule obj smp (replicate (count_list sched 0) 0) ([w], j)"
proof (induction sched arbitrary: w j)
  case Nil
  show ?case by simp
next
  case (Cons i sched)
  show ?case
  proof (cases "i = 0")
    case True
    with Cons.IH [of "fst (worker_step obj smp w j)" "snd (worker_step obj smp w j)"]
    show ?thesis by (simp add: Let_def)
  next
    case False
    with Cons.IH [of w j] show ?thesis by simp
  qed
qed

lemma run_finished:
  "finished w \<Longrightarrow> run_schedule obj smp (replicate m 0) ([w], j) = ([w], j)"
  by (induction m) (simp_all add: finished_def worker_step_finished Let_def)

lemma finished_ended: "finished (ended n r)"
  by (simp add: finished_def ended_def split: option.splits)

lemma loop_steps:
  "2 * k \<le> m \<Longrightarrow>
   run_schedule obj smp (replicate m 0) ([\<lparr>n_trials = n, pc = Loop s k, trace = tr\<rparr>], j)
     = ([ended n (trial_loop obj smp k (s, j) tr)],
        snd (handle (trial_loop obj smp k (s, j) tr)))"
proof (induction k arbitrary: m s j tr)
  case 0
  have "finished \<lparr>n_trials = n, pc = Loop s 0, trace = tr\<rparr>" by (simp add: finished_def)
  from run_finished [OF this] show ?case by (simp add: ended_def)
next
  case (Suc k)
  then obtain m' where m: "m = Suc (Suc m')" and m': "2 * k \<le> m'"
    by (cases m; cases "m - 1") auto
  let ?a = "ask smp (s, j)"
  let ?t = "fst ?a"
  let ?s1 = "fst (snd ?a)"
  let ?j1 = "snd (snd ?a)"
  have s1: "run_schedule obj smp (replicate m 0) ([\<lparr>n_trials = n, pc = Loop s (Suc k), trace = tr\<rparr>], j)
      = run_schedule obj smp (replicate (Suc m') 0)
          ([\<lparr>n_trials = n, pc = Body ?s1 k ?t, trace = tr @ [Ask ?t]\<rparr>], ?j1)"
    by (simp add: m worker_step_def Let_def)
  show ?case
  proof (cases "obj ?t")
    case (Inl e)
    have f: "finished \<lparr>n_trials = n, pc = Raised e, trace = tr @ [Ask ?t, Evaluate ?t]\<rparr>"
      by (simp add: finished_def)
    have "run_schedule obj smp (replicate (Suc m') 0)
          ([\<lparr>n_trials = n, pc = Body ?s1 k ?t, trace = tr @ [Ask ?t]\<rparr>], ?j1)
      = run_schedule obj smp (replicate m' 0)
          ([\<lparr>n_trials = n, pc = Raised e, trace = tr @ [Ask ?t, Evaluate ?t]\<rparr>], ?j1)"
      using Inl by (simp add: worker_step_def Let_def)
    also have "\<dots> = ([\<lparr>n_trials = n, pc = Raised e, trace = tr @ [Ask ?t, Evaluate ?t]\<rparr>], ?j1)"
      by (rule run_finished [OF f])
    finally show ?thesis
      unfolding s1 using Inl by (simp add: ended_def Let_def)
  next
    case (Inr v)
    show ?thesis
    proof (cases "tell ?t (Score v) (?s1, ?j1)")
      case (Inl e)
      have f: "finished \<lparr>n_trials = n, pc = Raised e,
          trace = tr @ [Ask ?t, Evaluate ?t, Tell ?t v]\<rparr>"
        by (simp add: finished_def)
      have "run_schedule obj smp (replicate (Suc m') 0)
            ([\<lparr>n_trials = n, pc = Body ?s1 k ?t, trace = tr @ [Ask ?t]\<rparr>], ?j1)
        = run_schedule obj smp (replicate m' 0)
            ([\<lparr>n_trials = n, pc = Raised e, trace = tr @ [Ask ?t, Evaluate ?t, Tell ?t v]\<rparr>], ?j1)"
        using Inr Inl by (simp add: worker_step_def Let_def)
      also have "\<dots> = ([\<lparr>n_trials = n, pc = Raised e,
          trace = tr @ [Ask ?t, Evaluate ?t, Tell ?t v]\<rparr>], ?j1)"
        by (rule run_finished [OF f])
      finally show ?thesis
        unfolding s1 using Inr Inl by (simp add: ended_def Let_def)
    next
      case h: (Inr h)
      have "run_schedule obj smp (replicate (Suc m') 0)
            ([\<lparr>n_trials = n, pc = Body ?s1 k ?t, trace = tr @ [Ask ?t]\<rparr>], ?j1)
        = run_schedule obj smp (replicate m' 0)
            ([\<lparr>n_trials = n, pc = Loop (fst h) k,
               trace = tr @ [Ask ?t, Evaluate ?t, Tell ?t v]\<rparr>], snd h)"
        using Inr h by (simp add: worker_step_def Let_def)
      also have "\<dots> = ([ended n (trial_loop obj smp k (fst h, snd h)
              (tr @ [Ask ?t, Evaluate ?t, Tell ?t v]))],
          snd (handle (trial_loop obj smp k (fst h, snd h)
              (tr @ [Ask ?t, Evaluate ?t, Tell ?t v]))))"
        by (rule Suc.IH [OF m'])
      finally show ?thesis
        unfolding s1 using Inr h by (simp add: Let_def)
    qed
  qed
qed

lemma lone_steps:
  assumes "Suc (2 * nat n) \<le> m"
  shows "run_schedule obj smp (replicate m 0) ([init_worker n], j)
     = ([ended n (optimize_study obj smp n j)], snd (handle (optimize_study obj smp n j)))"
proof -
  from assms obtain m' where m: "m = Suc m'" and m': "2 * nat n \<le> m'"
    by (cases m) auto
  have "run_schedule obj smp (replicate m 0) ([init_worker n], j)
      = run_schedule obj smp (replicate m' 0)
          ([\<lparr>n_trials = n, pc = Loop (open_study created_study_name created_direction j) (nat n),
             trace = []\<rparr>], j)"
    by (simp add: m init_worker_def worker_step_def Let_def)
  also have "\<dots> = ([ended n (optimize_study obj smp n j)],
      snd (handle (optimize_study obj smp n j)))"
    unfolding optimize_study_def by (rule loop_steps [OF m'])
  finally show ?thesis .
qed

lemma lone_worker:
  "parallel obj smp sched [n] j
     = ([ended n (optimize_study obj smp n j)], snd (handle (optimize_study obj smp n j)))"
proof -
  let ?c0 = "([init_worker n], j) :: ('a, 'b) worker list \<times> ('a, 'b) journal"
  let ?a = "count_list sched 0"
  let ?c1 = "run_schedule obj smp (replicate ?a 0) ?c0"
  let ?b = "steps_left (n_trials (fst ?c1 ! 0)) (pc (fst ?c1 ! 0))"
  let ?N = "Suc (2 * nat n)"
  let ?end = "([ended n (optimize_study obj smp n j)], snd (handle (optimize_study obj smp n j)))"
  have p: "parallel obj smp sched [n] j = run_schedule obj smp (replicate (?a + ?b) 0) ?c0"
    by (simp add: parallel_def Let_def run_single [of obj smp sched] replicate_add
        run_schedule_append)
  have len: "length (fst ?c1) = 1" by simp
  then obtain w1 where w1: "fst ?c1 = [w1]"
    by (cases "fst ?c1") auto
  have c1: "?c1 = ([w1], snd ?c1)" using w1 by (simp add: prod_eq_iff)
  have fin: "finished (fst (run_schedule obj smp (replicate ?b 0) ?c1) ! 0)"
    using run_one_finishes [of 0 ?c1 ?b obj smp] len by (simp add: finished_def)
  have l2: "length (fst (run_schedule obj smp (replicate ?b 0) ?c1)) = 1" by simp
  then obtain w2 where w2: "fst (run_schedule obj smp (replicate ?b 0) ?c1) = [w2]"
    by (cases "fst (run_schedule obj smp (replicate ?b 0) ?c1)") auto
  from fin w2 have f2: "finished w2" by simp
  have ab: "run_schedule obj smp (replicate (?a + ?b) 0) ?c0 = ([w2], snd (run_schedule obj smp (replicate ?b 0) ?c1))"
    using w2 by (simp add: replicate_add run_schedule_append prod_eq_iff)
  have "run_schedule obj smp (replicate (?a + ?b + ?N) 0) ?c0
      = run_schedule obj smp (replicate ?N 0) (run_schedule obj smp (replicate (?a + ?b) 0) ?c0)"
    by (simp only: replicate_add run_schedule_append)
  also have "\<dots> = run_schedule obj smp (replicate (?a + ?b) 0) ?c0"
    unfolding ab by (rule run_finished [OF f2])
  finally have one: "run_schedule obj smp (replicate (?a + ?b + ?N) 0) ?c0
      = run_schedule obj smp (replicate (?a + ?b) 0) ?c0" .
  have "run_schedule obj smp (replicate (?a + ?b + ?N) 0) ?c0 = ?end"
    by (rule lone_steps) simp
  with one p show ?thesis by simp
qed

text \<open>The trials a worker has asked and the statuses the journal gives them.\<close>

lemma asked_ids_step:
  "asked_ids (w\<lparr>pc := p, trace := trace w @ xs\<rparr>) = asked_ids w @ List.map_filter asked xs"
  by (simp add: asked_ids_def map_filter_def)

lemma step_account:
  assumes w: "well_formed j" and h: "holds_open j w" and t: "tracked w"
  shows "snd (worker_step obj smp w j) = j \<and>
      asked_ids (fst (worker_step obj smp w j)) = asked_ids w \<and>
      open_trial (fst (worker_step obj smp w j)) = open_trial w
    \<or> snd (worker_step obj smp w j) =
        j @ [\<lparr>sequence_number = length j,
              content = TrialCreated (length (created_ids j)) (smp (length (created_ids j)))\<rparr>] \<and>
      asked_ids (fst (worker_step obj smp w j)) = asked_ids w @ [length (created_ids j)] \<and>
      open_trial w = [] \<and>
      open_trial (fst (worker_step obj smp w j)) = [length (created_ids j)]
    \<or> (\<exists>a v. snd (worker_step obj smp w j) =
          j @ [\<lparr>sequence_number = length j, content = TrialCompleted a v\<rparr>] \<and>
        asked_ids (fst (worker_step obj smp w j)) = asked_ids w \<and>
        open_trial w = [a] \<and>
        open_trial (fst (worker_step obj smp w j)) = [])"
proof (cases "pc w")
  case Start
  then show ?thesis
    by (simp add: worker_step_def asked_ids_def open_trial_def)
next
  case (Loop s k)
  show ?thesis
  proof (cases k)
    case 0
    with Loop show ?thesis
      by (simp add: worker_step_def asked_ids_def open_trial_def)
  next
    case (Suc m)
    from t Loop have o: "outstanding (trace w) = Some None" by (simp add: tracked_def)
    from Loop Suc o show ?thesis
      by (simp add: worker_step_def Let_def asked_ids_step map_filter_def open_trial_def
          outstanding_append trial_of_ask journal_of_ask)
  qed
next
  case (Body s k tr)
  from t Body have o: "outstanding (trace w) = Some (Some tr)" by (simp add: tracked_def)
  show ?thesis
  proof (cases "obj tr")
    case (Inl e)
    with Body o show ?thesis
      by (simp add: worker_step_def asked_ids_step map_filter_def open_trial_def
          outstanding_append)
  next
    case (Inr v)
    from h Body have a: "trial_id tr < length (created_ids j)"
      and n: "trial_id tr \<notin> set (completed_ids j)"
      by (simp_all add: holds_open_def holding_def)
    from a w have c: "trial_id tr \<in> set (created_ids j)" by (simp add: created_below)
    from n have u: "told j (trial_id tr) = None" by (simp add: told_None)
    note tf = tell_first [OF c u, of "Score v" s]
    from Body Inr tf o show ?thesis
      by (simp add: worker_step_def asked_ids_step map_filter_def open_trial_def
          outstanding_append)
  qed
next
  case (Raised e)
  then show ?thesis
    by (simp add: worker_step_def asked_ids_def open_trial_def)
qed

lemma in_journal_created:
  assumes "in_journal j w"
  shows "in_journal (j @ [\<lparr>sequence_number = n, content = TrialCreated k p\<rparr>]) w"
proof -
  let ?j' = "j @ [\<lparr>sequence_number = n, content = TrialCreated k p\<rparr>]"
  have s: "statuses ?j' = statuses j @ [Running]" by (rule statuses_created)
  from assms have b: "\<forall>a \<in> set (asked_ids w). a < length (statuses j)"
    and f: "filter (\<lambda>a. statuses j ! a = Running) (asked_ids w) = open_trial w"
    by (simp_all add: in_journal_def)
  have "filter (\<lambda>a. statuses ?j' ! a = Running) (asked_ids w)
      = filter (\<lambda>a. statuses j ! a = Running) (asked_ids w)"
    by (rule filter_cong) (use b in \<open>simp_all add: s nth_append\<close>)
  with b f show ?thesis by (auto simp: in_journal_def s)
qed

lemma in_journal_completed:
  assumes "in_journal j w" and "well_formed j" and "a \<notin> set (asked_ids w)"
  shows "in_journal (j @ [\<lparr>sequence_number = n, content = TrialCompleted a v\<rparr>]) w"
proof -
  let ?j' = "j @ [\<lparr>sequence_number = n, content = TrialCompleted a v\<rparr>]"
  have s: "statuses ?j' = (statuses j)[a := Complete]" by (rule statuses_completed [OF assms(2)])
  from assms(1) have b: "\<forall>a \<in> set (asked_ids w). a < length (statuses j)"
    and f: "filter (\<lambda>a. statuses j ! a = Running) (asked_ids w) = open_trial w"
    by (simp_all add: in_journal_def)
  have "filter (\<lambda>x. statuses ?j' ! x = Running) (asked_ids w)
      = filter (\<lambda>x. statuses j ! x = Running) (asked_ids w)"
  proof (rule filter_cong [OF refl])
    fix x
    assume "x \<in> set (asked_ids w)"
    with assms(3) have "a \<noteq> x" by auto
    then show "(statuses ?j' ! x = Running) = (statuses j ! x = Running)" by (simp add: s)
  qed
  with b f show ?thesis by (auto simp: in_journal_def s)
qed

lemma in_journal_ask:
  assumes "in_journal j w"
    and "asked_ids w' = asked_ids w @ [length (created_ids j)]"
    and "open_trial w = []" and "open_trial w' = [length (created_ids j)]"
  shows "in_journal (j @ [\<lparr>sequence_number = n, content = TrialCreated k p\<rparr>]) w'"
proof -
  let ?j' = "j @ [\<lparr>sequence_number = n, content = TrialCreated k p\<rparr>]"
  have s: "statuses ?j' = statuses j @ [Running]" by (rule statuses_created)
  have l: "length (statuses j) = length (created_ids j)" by (rule length_statuses)
  from assms(1) have b: "\<forall>a \<in> set (asked_ids w). a < length (statuses j)"
    and f: "filter (\<lambda>a. statuses j ! a = Running) (asked_ids w) = open_trial w"
    by (simp_all add: in_journal_def)
  have "filter (\<lambda>a. statuses ?j' ! a = Running) (asked_ids w)
      = filter (\<lambda>a. statuses j ! a = Running) (asked_ids w)"
    by (rule filter_cong) (use b in \<open>simp_all add: s nth_append\<close>)
  with f assms(3) have "filter (\<lambda>a. statuses ?j' ! a = Running) (asked_ids w) = []" by simp
  moreover have "statuses ?j' ! length (created_ids j) = Running"
    by (simp add: s l [symmetric])
  ultimately have "filter (\<lambda>a. statuses ?j' ! a = Running) (asked_ids w') = open_trial w'"
    by (simp add: assms(2) assms(4))
  moreover have "\<forall>a \<in> set (asked_ids w'). a < length (statuses ?j')"
    using b by (auto simp: assms(2) s l)
  ultimately show ?thesis by (simp add: in_journal_def)
qed

lemma in_journal_tell:
  assumes "in_journal j w" and "well_formed j"
    and "asked_ids w' = asked_ids w" and "open_trial w = [a]" and "open_trial w' = []"
  shows "in_journal (j @ [\<lparr>sequence_number = n, content = TrialCompleted a v\<rparr>]) w'"
proof -
  let ?j' = "j @ [\<lparr>sequence_number = n, content = TrialCompleted a v\<rparr>]"
  have s: "statuses ?j' = (statuses j)[a := Complete]" by (rule statuses_completed [OF assms(2)])
  from assms(1) have b: "\<forall>a \<in> set (asked_ids w). a < length (statuses j)"
    and f: "filter (\<lambda>a. statuses j ! a = Running) (asked_ids w) = open_trial w"
    by (simp_all add: in_journal_def)
  have "filter (\<lambda>x. statuses ?j' ! x = Running) (asked_ids w)
      = filter (\<lambda>x. x \<noteq> a \<and> statuses j ! x = Running) (asked_ids w)"
  proof (rule filter_cong [OF refl])
    fix x
    assume "x \<in> set (asked_ids w)"
    with b have "x < length (statuses j)" by simp
    then show "(statuses ?j' ! x = Running) = (x \<noteq> a \<and> statuses j ! x = Running)"
      by (cases "x = a") (simp_all add: s)
  qed
  also have "\<dots> = filter (\<lambda>x. x \<noteq> a) (filter (\<lambda>x. statuses j ! x = Running) (asked_ids w))"
    by (simp add: conj_commute)
  also have "\<dots> = []" by (simp add: f assms(4))
  finally have "filter (\<lambda>x. statuses ?j' ! x = Running) (asked_ids w') = open_trial w'"
    by (simp add: assms(3) assms(5))
  with b show ?thesis by (simp add: in_journal_def s assms(3))
qed

lemma open_trial_asked: "in_journal j w \<Longrightarrow> open_trial w = [a] \<Longrightarrow> a \<in> set (asked_ids w)"
proof -
  assume "in_journal j w" and o: "open_trial w = [a]"
  then have "filter (\<lambda>a. statuses j ! a = Running) (asked_ids w) = [a]"
    by (simp add: in_journal_def)
  then have "a \<in> set (filter (\<lambda>a. statuses j ! a = Running) (asked_ids w))" by simp
  then show ?thesis by simp
qed

lemma accounted_step:
  assumes c: "coherent (ws, j)" and t: "list_all tracked ws" and a: "accounted (ws, j)"
    and i: "i < length ws"
  shows "accounted (ws[i := fst (worker_step obj smp (ws ! i) j)],
                    snd (worker_step obj smp (ws ! i) j))"
proof -
  let ?w' = "fst (worker_step obj smp (ws ! i) j)"
  let ?j' = "snd (worker_step obj smp (ws ! i) j)"
  let ?k0 = "length (created_ids j)"
  from c have wf: "well_formed j" by (simp add: coherent_def)
  from c i have ho: "holds_open j (ws ! i)" by (simp add: coherent_def)
  from t i have tr: "tracked (ws ! i)" by (simp add: list_all_length)
  have ij: "in_journal j (ws ! k)" if "k < length ws" for k
    using a that by (simp add: accounted_def)
  have dj: "set (asked_ids (ws ! k)) \<inter> set (asked_ids (ws ! m)) = {}"
    if "k < length ws" "m < length ws" "k \<noteq> m" for k m
    using a that by (simp add: accounted_def)
  have bound: "x < ?k0" if "k < length ws" "x \<in> set (asked_ids (ws ! k))" for k x
    using ij [OF that(1)] that(2) by (simp add: in_journal_def length_statuses)
  note sa = step_account [OF wf ho tr, of obj smp]
  have sub: "set (asked_ids ?w') \<subseteq> insert ?k0 (set (asked_ids (ws ! i)))"
    using sa
  proof (elim disjE conjE exE)
    assume "asked_ids ?w' = asked_ids (ws ! i)"
    then show ?thesis by (simp add: subset_insertI)
  next
    assume "asked_ids ?w' = asked_ids (ws ! i) @ [?k0]"
    then show ?thesis by simp
  next
    assume "asked_ids ?w' = asked_ids (ws ! i)"
    then show ?thesis by (simp add: subset_insertI)
  qed
  define w' where "w' = ?w'"
  define j' where "j' = ?j'"
  note sa' = sa [folded w'_def j'_def]
  note sub' = sub [folded w'_def]
  have g1: "in_journal j' (if k = i then w' else ws ! k)" if k: "k < length ws" for k
    using sa'
  proof (elim disjE conjE exE)
    assume "j' = j" "asked_ids w' = asked_ids (ws ! i)" "open_trial w' = open_trial (ws ! i)"
    with ij [OF k] ij [OF i] show ?thesis by (simp add: in_journal_def)
  next
    assume j': "j' = j @ [\<lparr>sequence_number = length j, content = TrialCreated ?k0 (smp ?k0)\<rparr>]"
      and as: "asked_ids w' = asked_ids (ws ! i) @ [?k0]"
      and o: "open_trial (ws ! i) = []" and o': "open_trial w' = [?k0]"
    show ?thesis
    proof (cases "k = i")
      case True
      from in_journal_ask [OF ij [OF i] as o o'] True show ?thesis by (simp add: j')
    next
      case False
      from in_journal_created [OF ij [OF k]] False show ?thesis by (simp add: j')
    qed
  next
    fix b v
    assume j': "j' = j @ [\<lparr>sequence_number = length j, content = TrialCompleted b v\<rparr>]"
      and as: "asked_ids w' = asked_ids (ws ! i)"
      and o: "open_trial (ws ! i) = [b]" and o': "open_trial w' = []"
    show ?thesis
    proof (cases "k = i")
      case True
      from in_journal_tell [OF ij [OF i] wf as o o'] True show ?thesis by (simp add: j')
    next
      case False
      from open_trial_asked [OF ij [OF i] o] have "b \<in> set (asked_ids (ws ! i))" .
      with dj [OF k i False] have "b \<notin> set (asked_ids (ws ! k))" by auto
      from in_journal_completed [OF ij [OF k] wf this] False show ?thesis by (simp add: j')
    qed
  qed
  have g2: "set (asked_ids (if k = i then w' else ws ! k)) \<inter>
            set (asked_ids (if m = i then w' else ws ! m)) = {}"
    if k: "k < length ws" and m: "m < length ws" and km: "k \<noteq> m" for k m
  proof (cases "k = i")
    case True
    with km have mi: "m \<noteq> i" by simp
    from bound [OF m] have "?k0 \<notin> set (asked_ids (ws ! m))" by auto
    with sub' dj [OF i m] True mi show ?thesis by auto
  next
    case False
    show ?thesis
    proof (cases "m = i")
      case True
      from bound [OF k] have "?k0 \<notin> set (asked_ids (ws ! k))" by auto
      with sub' dj [OF k i False] True False show ?thesis by auto
    next
      case mi: False
      with False dj [OF k m km] show ?thesis by simp
    qed
  qed
  have n: "(ws[i := w']) ! k = (if k = i then w' else ws ! k)" if "k < length ws" for k
    using that by (simp add: nth_list_update)
  have "accounted (ws[i := w'], j')"
    unfolding accounted_def fst_conv snd_conv length_list_update
  proof (intro conjI allI impI)
    fix k
    assume k: "k < length ws"
    show "in_journal j' (ws[i := w'] ! k)" unfolding n [OF k] by (rule g1 [OF k])
  next
    fix k m
    assume k: "k < length ws" and m: "m < length ws" and km: "k \<noteq> m"
    show "set (asked_ids (ws[i := w'] ! k)) \<inter> set (asked_ids (ws[i := w'] ! m)) = {}"
      unfolding n [OF k] n [OF m] by (rule g2 [OF k m km])
  qed
  then show ?thesis by (simp add: w'_def j'_def)
qed

lemma accounted_init: "accounted (map init_worker args, j)"
  by (simp add: accounted_def in_journal_def asked_ids_def open_trial_def init_worker_def
      outstanding_def map_filter_def)

lemma accounted_run_schedule:
  "coherent c \<Longrightarrow> list_all tracked (fst c) \<Longrightarrow> accounted c \<Longrightarrow>
     accounted (run_schedule obj smp sched c)"
proof (induction sched arbitrary: c)
  case Nil
  then show ?case by simp
next
  case (Cons i sched)
  show ?case
  proof (cases "i < length (fst c)")
    case True
    let ?r = "worker_step obj smp (fst c ! i) (snd c)"
    let ?c' = "((fst c)[i := fst ?r], snd ?r)"
    from Cons.prems have co: "coherent (fst c, snd c)" and ac: "accounted (fst c, snd c)"
      by simp_all
    from coherent_step [OF co True, of obj smp] have c1: "coherent ?c'" .
    from Cons.prems(2) True have "tracked (fst c ! i)" by (simp add: list_all_length)
    then have "tracked (fst ?r)" by (rule tracked_step)
    with Cons.prems(2) have c2: "list_all tracked (fst ?c')" by (simp add: list_all_update)
    from accounted_step [OF co Cons.prems(2) ac True, of obj smp] have c3: "accounted ?c'" .
    from Cons.IH [OF c1 c2 c3] True show ?thesis by (simp add: Let_def)
  next
    case False
    with Cons show ?thesis by simp
  qed
qed

lemma running_ids_nth:
  assumes "well_formed j" and "a < length (statuses j)"
  shows "a \<in> set (running_ids j) \<longleftrightarrow> statuses j ! a = Running"
proof -
  from assms(2) have l: "a < length (replay j)" by (simp add: statuses_def)
  have "a \<in> set (running_ids j) \<longleftrightarrow>
      (\<exists>n < length (replay j). status (replay j ! n) = Running \<and> trial_id (replay j ! n) = a)"
    by (auto simp: running_ids_def in_set_conv_nth)
  also have "\<dots> \<longleftrightarrow> (\<exists>n < length (replay j). status (replay j ! n) = Running \<and> n = a)"
    using nth_replay_id [OF assms(1)] by auto
  also have "\<dots> \<longleftrightarrow> status (replay j ! a) = Running" using l by auto
  finally show ?thesis using l by (simp add: statuses_def)
qed

lemma running_of_open:
  assumes "well_formed j" and "in_journal j w"
  shows "running_of j w = open_trial w"
proof -
  from assms(2) have b: "\<forall>a \<in> set (asked_ids w). a < length (statuses j)"
    and f: "filter (\<lambda>a. statuses j ! a = Running) (asked_ids w) = open_trial w"
    by (simp_all add: in_journal_def)
  have "running_of j w = filter (\<lambda>a. statuses j ! a = Running) (asked_ids w)"
    unfolding running_of_def
  proof (rule filter_cong [OF refl])
    fix x
    assume "x \<in> set (asked_ids w)"
    with b have "x < length (statuses j)" by simp
    from running_ids_nth [OF assms(1) this]
    show "(x \<in> set (running_ids j)) = (statuses j ! x = Running)" .
  qed
  with f show ?thesis by simp
qed

lemma length_open_trial: "length (open_trial w) \<le> 1"
  by (simp add: open_trial_def split: option.splits)










text \<open>The exception of a batch and what the timing loop does with it.\<close>

lemma first_raised_Cons:
  "first_raised (w # ws) =
     (case raised_in (pc w) of None \<Rightarrow> first_raised ws | Some e \<Rightarrow> Some e)"
  by (simp add: first_raised_def map_filter_simps split: option.splits)

lemma first_raised_None_iff:
  "first_raised ws = None \<longleftrightarrow> (\<forall>w \<in> set ws. raised_in (pc w) = None)"
proof (induction ws)
  case Nil
  show ?case by (simp add: first_raised_def map_filter_simps)
next
  case (Cons w ws)
  then show ?case by (simp add: first_raised_Cons split: option.splits)
qed

lemma first_raised_first:
  "i < length ws \<Longrightarrow> raised_in (pc (ws ! i)) = Some x \<Longrightarrow>
   \<forall>k < i. raised_in (pc (ws ! k)) = None \<Longrightarrow> first_raised ws = Some x"
proof (induction ws arbitrary: i)
  case Nil
  then show ?case by simp
next
  case (Cons w ws)
  show ?case
  proof (cases i)
    case 0
    with Cons.prems show ?thesis by (simp add: first_raised_Cons)
  next
    case (Suc m)
    from Cons.prems(3) Suc have w: "raised_in (pc w) = None" by auto
    from Cons.prems Suc have m: "m < length ws" and r: "raised_in (pc (ws ! m)) = Some x"
      by simp_all
    have "\<forall>k < m. raised_in (pc (ws ! k)) = None"
    proof (intro allI impI)
      fix k
      assume "k < m"
      then have "Suc k < i" using Suc by simp
      with Cons.prems(3) have "raised_in (pc ((w # ws) ! Suc k)) = None" by blast
      then show "raised_in (pc (ws ! k)) = None" by simp
    qed
    from Cons.IH [OF m r this] w show ?thesis by (simp add: first_raised_Cons)
  qed
qed

lemma timing_loop_stops:
  "fst (timing_loop obj smp nb env k ns1 st) = None \<Longrightarrow>
   fst (run_config obj smp nb n (env (k + length ns1))
          (snd (timing_loop obj smp nb env k ns1 st))) = Some x \<Longrightarrow>
   timing_loop obj smp nb env k (ns1 @ n # ns2) st =
     run_config obj smp nb n (env (k + length ns1)) (snd (timing_loop obj smp nb env k ns1 st))"
proof (induction ns1 arbitrary: k st)
  case Nil
  then show ?case by (simp add: Let_def)
next
  case (Cons m ns1)
  let ?r = "run_config obj smp nb m (env k) st"
  from Cons.prems(1) have f: "fst ?r = None"
    by (cases "fst ?r") (simp_all add: Let_def)
  with Cons.prems(1) have a: "fst (timing_loop obj smp nb env (Suc k) ns1 (snd ?r)) = None"
    by (simp add: Let_def)
  from Cons.prems(2) f
  have b: "fst (run_config obj smp nb n (env (Suc k + length ns1))
          (snd (timing_loop obj smp nb env (Suc k) ns1 (snd ?r)))) = Some x"
    by (simp add: Let_def)
  from Cons.IH [OF a b] f show ?case by (simp add: Let_def)
qed

lemma first_batch_raises:
  assumes wf: "well_formed j0" and m: "m < 32"
    and ok: "\<forall>i<m. \<exists>v. obj (new_trial smp (length (created_ids j0) + i)) = Inr v"
    and bad: "obj (new_trial smp (length (created_ids j0) + m)) = Inl x"
  shows "fst (timing_experiment obj smp env j0) = Some x \<and>
    times_list (snd (timing_experiment obj smp env j0)) = [] \<and>
    printed (snd (timing_experiment obj smp env j0)) = [Blank, OptimizationWith 1] \<and>
    statuses (storage (snd (timing_experiment obj smp env j0)))
      = statuses j0 @ replicate m Complete @ [Running]"
proof -
  let ?st0 = "\<lparr>storage = j0, times_list = [], printed = []\<rparr>"
  let ?run = "optimize_study obj smp 32 j0"
  have a: "args_list nb_trials 1 = [32]"
    by (simp add: args_list_def n_trials_per_process_def nb_trials_def)
  have p: "parallel obj smp (fst (env 0)) [32] j0 = ([ended 32 ?run], snd (handle ?run))"
    by (rule lone_worker)
  have m': "m < nat 32" using m by simp
  note tl = trial_loop_raises [OF wf m' ok bad,
      of "open_study created_study_name created_direction j0" "[]"]
  from tl have r: "raised ?run = Some x"
    and s: "statuses (snd (handle ?run)) = statuses j0 @ replicate m Complete @ [Running]"
    by (simp_all add: optimize_study_def)
  have fr: "first_raised [ended 32 ?run] = Some x"
    by (simp add: first_raised_Cons ended_def r)
  have rc: "run_config obj smp nb_trials 1 (env 0) ?st0 =
      (Some x, \<lparr>storage = snd (handle ?run), times_list = [],
                printed = [Blank, OptimizationWith 1]\<rparr>)"
    by (simp add: run_config_def Let_def a p fr)
  have "timing_experiment obj smp env j0 =
      (Some x, \<lparr>storage = snd (handle ?run), times_list = [],
                printed = [Blank, OptimizationWith 1]\<rparr>)"
    by (simp add: timing_experiment_def n_processes_def rc Let_def)
  with s show ?thesis by simp
qed
section \<open>The claims about the notebook\<close>




text \<open>
  Claim C4, as the code has it. \<^verbatim>\<open>optimize_study\<close> catches nothing: when the objective
  raises on the trial of iteration \<open>m\<close> (having returned scores before), the call ends with
  that exception; the \<open>m\<close> trials before are Complete, the trial it raised on stays Running
  (no trial is recorded Failed), and no further trial is asked. The claim as stated fails:
  with 10 trials and an objective raising on the parameters 2, 5 and 7 the run ends at the
  third trial with 2 Complete, 1 Running and 0 Failed trials.
\<close>

theorem failure_isolation_counterexample:
  "raised (optimize_study marker_objective (\<lambda>i. i) 10 [])
     = Some (ObjectiveEvaluationError ''marker'') \<and>
   statuses (snd (handle (optimize_study marker_objective (\<lambda>i. i) 10 [])))
     = [Complete, Complete, Running] \<and>
   length (filter is_ask (actions (optimize_study marker_objective (\<lambda>i. i) 10 []))) = 3"
  by code_simp

theorem objective_error_ends_run:
  assumes "well_formed j" and "m < nat n"
    and "\<forall>i<m. \<exists>v. objective (new_trial sampler (length (created_ids j) + i)) = Inr v"
    and "objective (new_trial sampler (length (created_ids j) + m)) = Inl e"
  shows "raised (optimize_study objective sampler n j) = Some e \<and>
    statuses (snd (handle (optimize_study objective sampler n j)))
      = statuses j @ replicate m Complete @ [Running] \<and>
    length (filter is_ask (actions (optimize_study objective sampler n j))) = Suc m \<and>
    length (filter is_tell (actions (optimize_study objective sampler n j))) = m"
  using trial_loop_raises [OF assms, of "open_study created_study_name created_direction j" "[]"]
  by (simp add: optimize_study_def)

theorem objective_error_ends_run_witness:
  "raised (optimize_study marker_objective (\<lambda>i. i) 10 [])
     = Some (ObjectiveEvaluationError ''marker'') \<and>
   statuses (snd (handle (optimize_study marker_objective (\<lambda>i. i) 10 [])))
     = [Complete, Complete, Running] \<and>
   length (filter is_ask (actions (optimize_study marker_objective (\<lambda>i. i) 10 []))) = 3 \<and>
   length (filter is_tell (actions (optimize_study marker_objective (\<lambda>i. i) 10 []))) = 2"
proof -
  have c: "length (created_ids ([] :: (nat, int) journal)) = 0"
    by (simp add: created_ids_def map_filter_def)
  have m: "(2::nat) < nat 10" by simp
  have ok: "\<forall>i<2. \<exists>v. marker_objective
      (new_trial (\<lambda>i. i) (length (created_ids ([] :: (nat, int) journal)) + i)) = Inr v"
    unfolding c by (simp add: marker_objective_def new_trial_def)
  have bad: "marker_objective
      (new_trial (\<lambda>i. i) (length (created_ids ([] :: (nat, int) journal)) + 2))
      = Inl (ObjectiveEvaluationError ''marker'')"
    unfolding c by (simp add: marker_objective_def new_trial_def)
  have s: "statuses ([] :: (nat, int) journal) = []" by (simp add: statuses_def replay_def)
  have r: "replicate 2 Complete @ [Running] = [Complete, Complete, Running]" by code_simp
  from objective_error_ends_run [OF well_formed_Nil m ok bad]
  show ?thesis unfolding s by (simp add: r)
qed

text \<open>
  Claim C5, as the code has it. On a journal the store produced and with an objective that
  returns a score for each of the \<open>n_trials\<close> trials it is given, \<^verbatim>\<open>optimize_study\<close> returns
  without an exception after exactly \<open>n_trials\<close> iterations (none for a negative
  \<open>n_trials\<close>), each one ask, one evaluation of the objective on the trial the ask
  returned and one tell of that trial with the objective's score, in that order, and all
  these trials are Complete. The claim as stated, for every objective, fails: an
  objective that raises ends the loop in the middle of an iteration.
\<close>

theorem iterations_counterexample:
  "actions (optimize_study marker_objective (\<lambda>i. i) 4 [])
     = [Ask \<lparr>trial_id = 0, parameters = 0, status = Running, trial_value = None\<rparr>,
        Evaluate \<lparr>trial_id = 0, parameters = 0, status = Running, trial_value = None\<rparr>,
        Tell \<lparr>trial_id = 0, parameters = 0, status = Running, trial_value = None\<rparr> 0,
        Ask \<lparr>trial_id = 1, parameters = 1, status = Running, trial_value = None\<rparr>,
        Evaluate \<lparr>trial_id = 1, parameters = 1, status = Running, trial_value = None\<rparr>,
        Tell \<lparr>trial_id = 1, parameters = 1, status = Running, trial_value = None\<rparr> 0,
        Ask \<lparr>trial_id = 2, parameters = 2, status = Running, trial_value = None\<rparr>,
        Evaluate \<lparr>trial_id = 2, parameters = 2, status = Running, trial_value = None\<rparr>] \<and>
   iterations (actions (optimize_study marker_objective (\<lambda>i. i) 4 [])) = None"
  by code_simp

theorem runner_iterations:
  assumes "well_formed j"
    and "\<forall>i<nat n. \<exists>v. objective (new_trial sampler (length (created_ids j) + i)) = Inr v"
  shows "raised (optimize_study objective sampler n j) = None \<and>
    (\<exists>its. iterations (actions (optimize_study objective sampler n j)) = Some its \<and>
           length its = nat n \<and> (\<forall>x \<in> set its. objective (fst x) = Inr (snd x))) \<and>
    length (filter is_ask (actions (optimize_study objective sampler n j))) = nat n \<and>
    length (filter is_tell (actions (optimize_study objective sampler n j))) = nat n \<and>
    length (actions (optimize_study objective sampler n j)) = 3 * nat n \<and>
    statuses (snd (handle (optimize_study objective sampler n j)))
      = statuses j @ replicate (nat n) Complete"
proof -
  let ?r = "optimize_study objective sampler n j"
  have i0: "iterations [] = Some ([] :: (('a, 'b) trial \<times> 'b) list)" by simp
  note tl = trial_loop_completes [OF assms(1) i0 assms(2),
      of "open_study created_study_name created_direction j"]
  from tl have r: "raised ?r = None" by (simp add: optimize_study_def)
  from tl have st: "statuses (snd (handle ?r)) = statuses j @ replicate (nat n) Complete"
    by (simp add: optimize_study_def)
  from tl obtain its where its: "iterations (actions ?r) = Some its"
    and len: "length its = nat n" and ok: "\<forall>x \<in> set its. objective (fst x) = Inr (snd x)"
    by (auto simp: optimize_study_def)
  from asks_of_iterations [OF its] len r its ok st show ?thesis by auto
qed

theorem runner_iterations_witness:
  "raised (optimize_study marker_objective (\<lambda>i. i) 2 []) = None \<and>
   length (filter is_ask (actions (optimize_study marker_objective (\<lambda>i. i) 2 []))) = 2 \<and>
   length (filter is_tell (actions (optimize_study marker_objective (\<lambda>i. i) 2 []))) = 2 \<and>
   length (actions (optimize_study marker_objective (\<lambda>i. i) 2 [])) = 6 \<and>
   statuses (snd (handle (optimize_study marker_objective (\<lambda>i. i) 2 []))) = [Complete, Complete]"
proof -
  have c: "length (created_ids ([] :: (nat, int) journal)) = 0"
    by (simp add: created_ids_def map_filter_def)
  have n: "nat 2 = Suc (Suc 0)" by simp
  have o: "\<forall>i<nat 2. \<exists>v. marker_objective
      (new_trial (\<lambda>i. i) (length (created_ids ([] :: (nat, int) journal)) + i)) = Inr v"
    unfolding c by (simp add: marker_objective_def new_trial_def)
  have s: "statuses ([] :: (nat, int) journal) = []" by (simp add: statuses_def replay_def)
  from runner_iterations [OF well_formed_Nil o]
  show ?thesis unfolding s n by simp
qed



text \<open>
  Claim C8, as the code has it. For every configuration the driver prints a blank line and
  a header; when no worker of the batch ended with an exception it appends to \<^verbatim>\<open>times\<close> and
  prints one duration, the second clock reading minus the first, taken around the whole
  batch (nothing per process or per trial), and it prints nothing else: no count of trials
  or of successes and failures. An exception of a worker is not swallowed: when a worker
  ended with one, the batch ends with the exception of the first such worker, no duration
  is printed or appended for it, and the timing loop stops there, the later configurations
  not run; the driver ends without exception only if no worker raised. In particular, when
  the objective raises on a trial of the first batch, the experiment ends with that
  exception, with no duration at all and the raising trial left Running. The claim as
  stated fails on the counts: two batches that complete 4 and 2 trials print the same
  lines.
\<close>

theorem report_without_counts:
  "printed (snd (run_config constant_objective (\<lambda>i. i) 4 2 ([], 0, 5)
       \<lparr>storage = [], times_list = [], printed = []\<rparr>))
   = printed (snd (run_config constant_objective (\<lambda>i. i) 2 2 ([], 0, 5)
       \<lparr>storage = [], times_list = [], printed = []\<rparr>)) \<and>
   statuses (storage (snd (run_config constant_objective (\<lambda>i. i) 4 2 ([], 0, 5)
       \<lparr>storage = [], times_list = [], printed = []\<rparr>)))
   = [Complete, Complete, Complete, Complete] \<and>
   statuses (storage (snd (run_config constant_objective (\<lambda>i. i) 2 2 ([], 0, 5)
       \<lparr>storage = [], times_list = [], printed = []\<rparr>)))
   = [Complete, Complete]"
  by code_simp

theorem driver_report:
  "(n_process \<noteq> 0 \<longrightarrow>
     (let ws = fst (parallel objective sampler (fst e) (args_list nb n_process) (storage st));
          r = run_config objective sampler nb n_process e st
      in ((\<forall>w \<in> set ws. raised_in (pc w) = None) \<longrightarrow>
            fst r = None \<and>
            printed (snd r)
              = printed st @ [Blank, OptimizationWith n_process, DoneIn (snd (snd e) - fst (snd e))] \<and>
            times_list (snd r) = times_list st @ [snd (snd e) - fst (snd e)]) \<and>
         (\<forall>i x. i < length ws \<and> raised_in (pc (ws ! i)) = Some x \<and>
                (\<forall>k < i. raised_in (pc (ws ! k)) = None) \<longrightarrow>
            fst r = Some x \<and>
            printed (snd r) = printed st @ [Blank, OptimizationWith n_process] \<and>
            times_list (snd r) = times_list st) \<and>
         (fst r = None \<longrightarrow> (\<forall>w \<in> set ws. raised_in (pc w) = None)))) \<and>
   (fst (timing_loop objective sampler nb env k ns1 st) = None \<and>
    fst (run_config objective sampler nb n (env (k + length ns1))
           (snd (timing_loop objective sampler nb env k ns1 st))) = Some y \<longrightarrow>
      timing_loop objective sampler nb env k (ns1 @ n # ns2) st =
        run_config objective sampler nb n (env (k + length ns1))
          (snd (timing_loop objective sampler nb env k ns1 st))) \<and>
   (well_formed j0 \<and> m < 32 \<and>
    (\<forall>i<m. \<exists>v. objective (new_trial sampler (length (created_ids j0) + i)) = Inr v) \<and>
    objective (new_trial sampler (length (created_ids j0) + m)) = Inl z \<longrightarrow>
      fst (timing_experiment objective sampler env j0) = Some z \<and>
      times_list (snd (timing_experiment objective sampler env j0)) = [] \<and>
      printed (snd (timing_experiment objective sampler env j0)) = [Blank, OptimizationWith 1] \<and>
      statuses (storage (snd (timing_experiment objective sampler env j0)))
        = statuses j0 @ replicate m Complete @ [Running]) \<and>
   ((\<forall>t. \<exists>v. objective t = Inr v) \<and> well_formed j0 \<longrightarrow>
      printed (snd (timing_experiment objective sampler env j0))
        = [Blank, OptimizationWith 1, DoneIn (snd (snd (env 0)) - fst (snd (env 0))),
           Blank, OptimizationWith 2, DoneIn (snd (snd (env 1)) - fst (snd (env 1))),
           Blank, OptimizationWith 4, DoneIn (snd (snd (env 2)) - fst (snd (env 2))),
           Blank, OptimizationWith 8, DoneIn (snd (snd (env 3)) - fst (snd (env 3)))] \<and>
      times_list (snd (timing_experiment objective sampler env j0))
        = [snd (snd (env 0)) - fst (snd (env 0)), snd (snd (env 1)) - fst (snd (env 1)),
           snd (snd (env 2)) - fst (snd (env 2)), snd (snd (env 3)) - fst (snd (env 3))])"
proof (intro conjI)
  show "n_process \<noteq> 0 \<longrightarrow>
     (let ws = fst (parallel objective sampler (fst e) (args_list nb n_process) (storage st));
          r = run_config objective sampler nb n_process e st
      in ((\<forall>w \<in> set ws. raised_in (pc w) = None) \<longrightarrow>
            fst r = None \<and>
            printed (snd r)
              = printed st @ [Blank, OptimizationWith n_process, DoneIn (snd (snd e) - fst (snd e))] \<and>
            times_list (snd r) = times_list st @ [snd (snd e) - fst (snd e)]) \<and>
         (\<forall>i x. i < length ws \<and> raised_in (pc (ws ! i)) = Some x \<and>
                (\<forall>k < i. raised_in (pc (ws ! k)) = None) \<longrightarrow>
            fst r = Some x \<and>
            printed (snd r) = printed st @ [Blank, OptimizationWith n_process] \<and>
            times_list (snd r) = times_list st) \<and>
         (fst r = None \<longrightarrow> (\<forall>w \<in> set ws. raised_in (pc w) = None)))"
  proof
    assume n: "n_process \<noteq> 0"
    define ws where "ws = fst (parallel objective sampler (fst e) (args_list nb n_process) (storage st))"
    define r where "r = run_config objective sampler nb n_process e st"
    have good: "fst r = None \<and>
        printed (snd r)
          = printed st @ [Blank, OptimizationWith n_process, DoneIn (snd (snd e) - fst (snd e))] \<and>
        times_list (snd r) = times_list st @ [snd (snd e) - fst (snd e)]"
      if "first_raised ws = None"
      using that n by (simp add: r_def run_config_def Let_def ws_def)
    have bad: "fst r = Some x \<and>
        printed (snd r) = printed st @ [Blank, OptimizationWith n_process] \<and>
        times_list (snd r) = times_list st"
      if "first_raised ws = Some x" for x
      using that n by (simp add: r_def run_config_def Let_def ws_def)
    have c1: "(\<forall>w \<in> set ws. raised_in (pc w) = None) \<longrightarrow>
        fst r = None \<and>
        printed (snd r)
          = printed st @ [Blank, OptimizationWith n_process, DoneIn (snd (snd e) - fst (snd e))] \<and>
        times_list (snd r) = times_list st @ [snd (snd e) - fst (snd e)]"
      using good by (simp add: first_raised_None_iff)
    have c2: "\<forall>i x. i < length ws \<and> raised_in (pc (ws ! i)) = Some x \<and>
                (\<forall>k < i. raised_in (pc (ws ! k)) = None) \<longrightarrow>
            fst r = Some x \<and>
            printed (snd r) = printed st @ [Blank, OptimizationWith n_process] \<and>
            times_list (snd r) = times_list st"
    proof (intro allI impI)
      fix i x
      assume "i < length ws \<and> raised_in (pc (ws ! i)) = Some x \<and>
                (\<forall>k < i. raised_in (pc (ws ! k)) = None)"
      then have "first_raised ws = Some x" using first_raised_first by blast
      then show "fst r = Some x \<and>
            printed (snd r) = printed st @ [Blank, OptimizationWith n_process] \<and>
            times_list (snd r) = times_list st" by (rule bad)
    qed
    have c3: "fst r = None \<longrightarrow> (\<forall>w \<in> set ws. raised_in (pc w) = None)"
    proof
      assume f: "fst r = None"
      have "first_raised ws = None"
      proof (cases "first_raised ws")
        case None
        then show ?thesis .
      next
        case (Some x)
        from bad [OF Some] f show ?thesis by simp
      qed
      then show "\<forall>w \<in> set ws. raised_in (pc w) = None" by (simp add: first_raised_None_iff)
    qed
    from c1 c2 c3 show "let ws = fst (parallel objective sampler (fst e) (args_list nb n_process) (storage st));
          r = run_config objective sampler nb n_process e st
      in ((\<forall>w \<in> set ws. raised_in (pc w) = None) \<longrightarrow>
            fst r = None \<and>
            printed (snd r)
              = printed st @ [Blank, OptimizationWith n_process, DoneIn (snd (snd e) - fst (snd e))] \<and>
            times_list (snd r) = times_list st @ [snd (snd e) - fst (snd e)]) \<and>
         (\<forall>i x. i < length ws \<and> raised_in (pc (ws ! i)) = Some x \<and>
                (\<forall>k < i. raised_in (pc (ws ! k)) = None) \<longrightarrow>
            fst r = Some x \<and>
            printed (snd r) = printed st @ [Blank, OptimizationWith n_process] \<and>
            times_list (snd r) = times_list st) \<and>
         (fst r = None \<longrightarrow> (\<forall>w \<in> set ws. raised_in (pc w) = None))"
      unfolding Let_def ws_def [symmetric] r_def [symmetric] by (intro conjI)
  qed
next
  show "fst (timing_loop objective sampler nb env k ns1 st) = None \<and>
    fst (run_config objective sampler nb n (env (k + length ns1))
           (snd (timing_loop objective sampler nb env k ns1 st))) = Some y \<longrightarrow>
      timing_loop objective sampler nb env k (ns1 @ n # ns2) st =
        run_config objective sampler nb n (env (k + length ns1))
          (snd (timing_loop objective sampler nb env k ns1 st))"
    using timing_loop_stops by blast
next
  show "well_formed j0 \<and> m < 32 \<and>
    (\<forall>i<m. \<exists>v. objective (new_trial sampler (length (created_ids j0) + i)) = Inr v) \<and>
    objective (new_trial sampler (length (created_ids j0) + m)) = Inl z \<longrightarrow>
      fst (timing_experiment objective sampler env j0) = Some z \<and>
      times_list (snd (timing_experiment objective sampler env j0)) = [] \<and>
      printed (snd (timing_experiment objective sampler env j0)) = [Blank, OptimizationWith 1] \<and>
      statuses (storage (snd (timing_experiment objective sampler env j0)))
        = statuses j0 @ replicate m Complete @ [Running]"
  proof
    assume a: "well_formed j0 \<and> m < 32 \<and>
      (\<forall>i<m. \<exists>v. objective (new_trial sampler (length (created_ids j0) + i)) = Inr v) \<and>
      objective (new_trial sampler (length (created_ids j0) + m)) = Inl z"
    then have wf: "well_formed j0" and m: "m < 32"
      and ok: "\<forall>i<m. \<exists>v. objective (new_trial sampler (length (created_ids j0) + i)) = Inr v"
      and bad: "objective (new_trial sampler (length (created_ids j0) + m)) = Inl z"
      by blast+
    show "fst (timing_experiment objective sampler env j0) = Some z \<and>
      times_list (snd (timing_experiment objective sampler env j0)) = [] \<and>
      printed (snd (timing_experiment objective sampler env j0)) = [Blank, OptimizationWith 1] \<and>
      statuses (storage (snd (timing_experiment objective sampler env j0)))
        = statuses j0 @ replicate m Complete @ [Running]"
      by (rule first_batch_raises [OF wf m ok bad])
  qed
next
  show "(\<forall>t. \<exists>v. objective t = Inr v) \<and> well_formed j0 \<longrightarrow>
      printed (snd (timing_experiment objective sampler env j0))
        = [Blank, OptimizationWith 1, DoneIn (snd (snd (env 0)) - fst (snd (env 0))),
           Blank, OptimizationWith 2, DoneIn (snd (snd (env 1)) - fst (snd (env 1))),
           Blank, OptimizationWith 4, DoneIn (snd (snd (env 2)) - fst (snd (env 2))),
           Blank, OptimizationWith 8, DoneIn (snd (snd (env 3)) - fst (snd (env 3)))] \<and>
      times_list (snd (timing_experiment objective sampler env j0))
        = [snd (snd (env 0)) - fst (snd (env 0)), snd (snd (env 1)) - fst (snd (env 1)),
           snd (snd (env 2)) - fst (snd (env 2)), snd (snd (env 3)) - fst (snd (env 3))]"
  proof (intro impI conjI)
    assume a: "(\<forall>t. \<exists>v. objective t = Inr v) \<and> well_formed j0"
    let ?st0 = "\<lparr>storage = j0, times_list = [], printed = []\<rparr>"
    have z: "0 \<notin> set n_processes" by (simp add: n_processes_def)
    have wf: "well_formed (storage ?st0)" using a by simp
    have i: "Suc 0 = 1" "Suc 1 = 2" "Suc 2 = 3" by simp_all
    note tl = timing_loop_steady [OF a [THEN conjunct1] wf z, of sampler nb_trials env 0]
    from tl show "printed (snd (timing_experiment objective sampler env j0))
        = [Blank, OptimizationWith 1, DoneIn (snd (snd (env 0)) - fst (snd (env 0))),
           Blank, OptimizationWith 2, DoneIn (snd (snd (env 1)) - fst (snd (env 1))),
           Blank, OptimizationWith 4, DoneIn (snd (snd (env 2)) - fst (snd (env 2))),
           Blank, OptimizationWith 8, DoneIn (snd (snd (env 3)) - fst (snd (env 3)))]"
      unfolding timing_experiment_def n_processes_def batch_lines.simps i by simp
    from tl show "times_list (snd (timing_experiment objective sampler env j0))
        = [snd (snd (env 0)) - fst (snd (env 0)), snd (snd (env 1)) - fst (snd (env 1)),
           snd (snd (env 2)) - fst (snd (env 2)), snd (snd (env 3)) - fst (snd (env 3))]"
      unfolding timing_experiment_def n_processes_def batch_times.simps i by simp
  qed
qed

theorem driver_report_witness:
  "fst (run_config constant_objective (\<lambda>i. i) 4 2 ([], 0, 5)
       \<lparr>storage = [], times_list = [], printed = []\<rparr>) = None \<and>
   printed (snd (run_config constant_objective (\<lambda>i. i) 4 2 ([], 0, 5)
       \<lparr>storage = [], times_list = [], printed = []\<rparr>))
     = [Blank, OptimizationWith 2, DoneIn 5] \<and>
   fst (run_config marker_objective (\<lambda>i. i) 8 1 ([], 0, 5)
       \<lparr>storage = [], times_list = [], printed = []\<rparr>)
     = Some (ObjectiveEvaluationError ''marker'') \<and>
   printed (snd (run_config marker_objective (\<lambda>i. i) 8 1 ([], 0, 5)
       \<lparr>storage = [], times_list = [], printed = []\<rparr>))
     = [Blank, OptimizationWith 1] \<and>
   fst (timing_experiment marker_objective (\<lambda>i. i) (\<lambda>k. ([], 0, 5)) [])
     = Some (ObjectiveEvaluationError ''marker'') \<and>
   times_list (snd (timing_experiment marker_objective (\<lambda>i. i) (\<lambda>k. ([], 0, 5)) [])) = [] \<and>
   statuses (storage (snd (timing_experiment marker_objective (\<lambda>i. i) (\<lambda>k. ([], 0, 5)) [])))
     = [Complete, Complete, Running] \<and>
   times_list (snd (timing_experiment constant_objective (\<lambda>i. i) (\<lambda>k. ([], 0, 5)) []))
     = [5, 5, 5, 5]"
proof -
  let ?st0 = "\<lparr>storage = [] :: (nat, int) journal, times_list = [], printed = []\<rparr>"
  let ?e = "([], 0, 5) :: nat list \<times> real \<times> real"
  let ?x = "ObjectiveEvaluationError ''marker''"
  let ?ws1 = "fst (parallel constant_objective (\<lambda>i. i) (fst ?e) (args_list 4 2) (storage ?st0))"
  let ?ws2 = "fst (parallel marker_objective (\<lambda>i. i) (fst ?e) (args_list 8 1) (storage ?st0))"
  have n: "(2::int) \<noteq> 0" "(1::int) \<noteq> 0" by simp_all
  have o: "\<forall>t. \<exists>v. constant_objective t = Inr v" by (simp add: constant_objective_def)
  have "first_raised ?ws1 = None" by code_simp
  then have f1: "\<forall>w \<in> set ?ws1. raised_in (pc w) = None" by (simp only: first_raised_None_iff)
  have l2: "0 < length ?ws2" by code_simp
  have r2: "raised_in (pc (?ws2 ! 0)) = Some ?x" by code_simp
  have f2: "0 < length ?ws2 \<and> raised_in (pc (?ws2 ! 0)) = Some ?x \<and>
      (\<forall>k < 0. raised_in (pc (?ws2 ! k)) = None)"
    using l2 r2 by simp
  note t1 = driver_report [where n_process = 2 and objective = constant_objective
      and sampler = "\<lambda>i. i" and e = ?e and nb = 4 and st = ?st0,
      THEN conjunct1, rule_format, OF n(1), unfolded Let_def, THEN conjunct1, THEN mp, OF f1]
  note t2 = driver_report [where n_process = 1 and objective = marker_objective
      and sampler = "\<lambda>i. i" and e = ?e and nb = 8 and st = ?st0,
      THEN conjunct1, rule_format, OF n(2), unfolded Let_def, THEN conjunct2, THEN conjunct1,
      rule_format, OF f2]
  have m: "(2::nat) < 32" by simp
  have ok: "\<forall>i<2. \<exists>v. marker_objective (new_trial (\<lambda>i. i)
      (length (created_ids ([] :: (nat, int) journal)) + i)) = Inr v"
    by (simp add: marker_objective_def new_trial_def created_ids_def map_filter_def)
  have bad: "marker_objective (new_trial (\<lambda>i. i)
      (length (created_ids ([] :: (nat, int) journal)) + 2)) = Inl ?x"
    by (simp add: marker_objective_def new_trial_def created_ids_def map_filter_def)
  note t3 = driver_report [where objective = marker_objective
      and sampler = "\<lambda>i. i" and ?j0.0 = "[]" and env = "\<lambda>k. ([], 0, 5)" and m = 2 and z = ?x,
      THEN conjunct2, THEN conjunct2, THEN conjunct1, rule_format,
      OF conjI, OF well_formed_Nil conjI, OF m conjI, OF ok bad]
  note t4 = driver_report [where objective = constant_objective
      and sampler = "\<lambda>i. i" and ?j0.0 = "[]" and env = "\<lambda>k. ([], 0, 5)",
      THEN conjunct2, THEN conjunct2, THEN conjunct2, rule_format, OF conjI, OF o well_formed_Nil]
  from t1 have a: "fst (run_config constant_objective (\<lambda>i. i) 4 2 ?e ?st0) = None"
    and b: "printed (snd (run_config constant_objective (\<lambda>i. i) 4 2 ?e ?st0))
        = [Blank, OptimizationWith 2, DoneIn 5]"
    by simp_all
  from t2 have c: "fst (run_config marker_objective (\<lambda>i. i) 8 1 ?e ?st0) = Some ?x"
    and d: "printed (snd (run_config marker_objective (\<lambda>i. i) 8 1 ?e ?st0))
        = [Blank, OptimizationWith 1]"
    by simp_all
  from t3 have e1: "fst (timing_experiment marker_objective (\<lambda>i. i) (\<lambda>k. ([], 0, 5)) []) = Some ?x"
    and e2: "times_list (snd (timing_experiment marker_objective (\<lambda>i. i) (\<lambda>k. ([], 0, 5)) [])) = []"
    and e3: "statuses (storage (snd (timing_experiment marker_objective (\<lambda>i. i) (\<lambda>k. ([], 0, 5)) [])))
        = [Complete, Complete, Running]"
    by (simp_all add: statuses_def replay_def numeral_2_eq_2)
  from t4 have g: "times_list (snd (timing_experiment constant_objective (\<lambda>i. i) (\<lambda>k. ([], 0, 5)) []))
     = [5, 5, 5, 5]"
    by simp
  from a b c d e1 e2 e3 g show ?thesis by (intro conjI)
qed

text \<open>
  Claim C9. The timing loop works on one storage for all four configurations and only
  appends to it: with an objective that always returns a score, whatever the schedules and
  clock readings, the loop over \<open>[1, 2, 4, 8]\<close> with 32 trials ends without an exception
  with exactly 128 trials more in the journal than at its start, and the journal it
  started from is still the beginning of the final journal; each single configuration
  adds exactly 32 trials to the journal it finds and keeps that journal as its beginning.
\<close>

theorem timing_experiment_accumulates:
  assumes "\<forall>t. \<exists>v. objective t = Inr v" and "well_formed j0"
  shows "fst (timing_experiment objective sampler env j0) = None \<and>
    length (created_ids (storage (snd (timing_experiment objective sampler env j0))))
      = length (created_ids j0) + 128 \<and>
    take (length j0) (storage (snd (timing_experiment objective sampler env j0))) = j0 \<and>
    well_formed (storage (snd (timing_experiment objective sampler env j0))) \<and>
    (\<forall>n \<in> set n_processes. \<forall>st e. well_formed (storage st) \<longrightarrow>
       length (created_ids (storage (snd (run_config objective sampler nb_trials n e st))))
         = length (created_ids (storage st)) + 32 \<and>
       take (length (storage st)) (storage (snd (run_config objective sampler nb_trials n e st)))
         = storage st)"
proof -
  let ?st0 = "\<lparr>storage = j0, times_list = [], printed = []\<rparr>"
  have z: "0 \<notin> set n_processes" by (simp add: n_processes_def)
  have wf: "well_formed (storage ?st0)" using assms(2) by simp
  note tl = timing_loop_steady [OF assms(1) wf z, of sampler nb_trials env 0]
  have sum: "sum_list (map (\<lambda>n. nat n * nat (nb_trials div n)) n_processes) = 128"
    by (simp add: n_processes_def nb_trials_def)
  have f: "fst (timing_experiment objective sampler env j0) = None"
    unfolding timing_experiment_def using tl by blast
  have c: "length (created_ids (storage (snd (timing_experiment objective sampler env j0))))
      = length (created_ids j0) + 128"
    unfolding timing_experiment_def using tl sum by simp
  have "\<exists>es. storage (snd (timing_experiment objective sampler env j0)) = j0 @ es"
    unfolding timing_experiment_def using tl by simp
  then have p: "take (length j0) (storage (snd (timing_experiment objective sampler env j0))) = j0"
    by (rule take_grown)
  have w: "well_formed (storage (snd (timing_experiment objective sampler env j0)))"
    unfolding timing_experiment_def using tl by blast
  have each: "length (created_ids (storage (snd (run_config objective sampler nb_trials n e st))))
         = length (created_ids (storage st)) + 32 \<and>
       take (length (storage st)) (storage (snd (run_config objective sampler nb_trials n e st)))
         = storage st"
    if n: "n \<in> set n_processes" and wst: "well_formed (storage st)" for n e and st :: "('a, 'b) notebook"
  proof -
    from n have n0: "n \<noteq> 0" and m: "nat n * nat (nb_trials div n) = 32"
      by (auto simp: n_processes_def nb_trials_def)
    note rc = run_config_steady [OF assms(1) wst n0, of sampler nb_trials e]
    from rc m have "length (created_ids (storage (snd (run_config objective sampler nb_trials n e st))))
         = length (created_ids (storage st)) + 32" by simp
    moreover from rc have "\<exists>es. storage (snd (run_config objective sampler nb_trials n e st)) = storage st @ es"
      by blast
    then have "take (length (storage st)) (storage (snd (run_config objective sampler nb_trials n e st)))
         = storage st" by (rule take_grown)
    ultimately show ?thesis by blast
  qed
  from f c p w each show ?thesis by blast
qed

theorem timing_experiment_accumulates_witness:
  "fst (timing_experiment constant_objective (\<lambda>i. i) (\<lambda>k. ([], 0, 1)) []) = None \<and>
   length (created_ids (storage (snd
     (timing_experiment constant_objective (\<lambda>i. i) (\<lambda>k. ([], 0, 1)) [])))) = 128 \<and>
   length (created_ids (storage (snd
     (run_config constant_objective (\<lambda>i. i) nb_trials 4 ([], 0, 1)
        \<lparr>storage = [], times_list = [], printed = []\<rparr>)))) = 32"
proof -
  let ?st0 = "\<lparr>storage = [] :: (nat, int) journal, times_list = [], printed = []\<rparr>"
  have o: "\<forall>t. \<exists>v. constant_objective t = Inr v" by (simp add: constant_objective_def)
  have c: "length (created_ids ([] :: (nat, int) journal)) = 0"
    by (simp add: created_ids_def map_filter_def)
  have m: "(4::int) \<in> set n_processes" by (simp add: n_processes_def)
  have w: "well_formed (storage ?st0)" by (simp add: well_formed_Nil)
  note th = timing_experiment_accumulates [OF o well_formed_Nil, of "\<lambda>i. i" "\<lambda>k. ([], 0, 1)"]
  have a: "fst (timing_experiment constant_objective (\<lambda>i. i) (\<lambda>k. ([], 0, 1)) []) = None"
    by (rule th [THEN conjunct1])
  have b: "length (created_ids (storage (snd
     (timing_experiment constant_objective (\<lambda>i. i) (\<lambda>k. ([], 0, 1)) []))))
      = length (created_ids ([] :: (nat, int) journal)) + 128"
    by (rule th [THEN conjunct2, THEN conjunct1])
  have d: "length (created_ids (storage (snd
     (run_config constant_objective (\<lambda>i. i) nb_trials 4 ([], 0, 1) ?st0))))
      = length (created_ids (storage ?st0)) + 32"
    by (rule th [THEN conjunct2, THEN conjunct2, THEN conjunct2, THEN conjunct2,
          THEN bspec, OF m, rule_format, OF w, THEN conjunct1])
  from a b d show ?thesis unfolding c by (simp add: c)
qed

text \<open>
  Claim C10. In every configuration that any schedule of any workers reaches from any
  journal, with any objective and sampler, the trace of every worker follows the protocol:
  it never asks while a trial of its own is outstanding and tells only the trial of its
  last ask, so it has asked at most one trial more than it has told. When the journal the
  workers start on is one the store produced, the journal agrees: of the trials a worker
  has asked, those that the study replayed from the journal shows Running are exactly the
  worker's outstanding trial, at most one, and every trial it asked is a trial of the
  journal. Every point of an execution is the end of the run of some schedule.
\<close>

theorem one_outstanding_trial:
  "list_all (\<lambda>w. outstanding (trace w) \<noteq> None \<and>
                 length (filter is_ask (trace w)) \<le> Suc (length (filter is_tell (trace w))))
     (fst (run_schedule objective sampler sched (map init_worker args, j))) \<and>
   (well_formed j \<longrightarrow>
      list_all (\<lambda>w. running_of (snd (run_schedule objective sampler sched (map init_worker args, j))) w
                       = open_trial w \<and>
                     length (running_of
                       (snd (run_schedule objective sampler sched (map init_worker args, j))) w) \<le> 1 \<and>
                     set (asked_ids w) \<subseteq> set (created_ids
                       (snd (run_schedule objective sampler sched (map init_worker args, j)))))
        (fst (run_schedule objective sampler sched (map init_worker args, j))))"
proof (intro conjI impI)
  let ?ws = "fst (run_schedule objective sampler sched (map init_worker args, j))"
  have "list_all tracked (fst (map init_worker args, j))"
    by (simp add: list_all_iff tracked_init)
  then have t: "list_all tracked ?ws" by (rule tracked_run_schedule)
  have "outstanding (trace w) \<noteq> None \<and>
        length (filter is_ask (trace w)) \<le> Suc (length (filter is_tell (trace w)))"
    if "tracked w" for w :: "('a, 'b) worker"
  proof -
    from that obtain h where h: "outstanding (trace w) = Some h"
      using tracked_outstanding by blast
    from asks_and_tells [OF h] h show ?thesis by (simp split: if_splits)
  qed
  with t show "list_all (\<lambda>w. outstanding (trace w) \<noteq> None \<and>
                 length (filter is_ask (trace w)) \<le> Suc (length (filter is_tell (trace w)))) ?ws"
    by (simp add: list_all_iff)
next
  assume wf: "well_formed j"
  let ?c0 = "(map init_worker args, j) :: ('a, 'b) worker list \<times> ('a, 'b) journal"
  define c where "c = run_schedule objective sampler sched ?c0"
  have co0: "coherent ?c0" using wf by (rule coherent_init)
  have tr0: "list_all tracked (fst ?c0)" by (simp add: list_all_iff tracked_init)
  have ac0: "accounted ?c0" by (rule accounted_init)
  have co: "coherent c" unfolding c_def using co0 by (rule coherent_run_schedule)
  have ac: "accounted c" unfolding c_def using co0 tr0 ac0 by (rule accounted_run_schedule)
  from co have w': "well_formed (snd c)" by (simp add: coherent_def)
  have each: "running_of (snd c) w = open_trial w \<and> length (running_of (snd c) w) \<le> 1 \<and>
        set (asked_ids w) \<subseteq> set (created_ids (snd c))"
    if "w \<in> set (fst c)" for w
  proof -
    from that obtain i where i: "i < length (fst c)" and w: "w = fst c ! i"
      by (auto simp: in_set_conv_nth)
    from ac i w have ij: "in_journal (snd c) w" by (simp add: accounted_def)
    from running_of_open [OF w' ij] have r: "running_of (snd c) w = open_trial w" .
    from ij have "\<forall>a \<in> set (asked_ids w). a < length (created_ids (snd c))"
      by (simp add: in_journal_def length_statuses)
    then have "set (asked_ids w) \<subseteq> set (created_ids (snd c))"
      using created_below [OF w'] by auto
    with r length_open_trial [of w] show ?thesis by simp
  qed
  show "list_all (\<lambda>w. running_of (snd (run_schedule objective sampler sched ?c0)) w
                       = open_trial w \<and>
                     length (running_of (snd (run_schedule objective sampler sched ?c0)) w) \<le> 1 \<and>
                     set (asked_ids w) \<subseteq> set (created_ids
                       (snd (run_schedule objective sampler sched ?c0))))
        (fst (run_schedule objective sampler sched ?c0))"
    unfolding c_def [symmetric] list_all_iff by (rule ballI) (rule each)
qed

theorem one_outstanding_trial_witness:
  "map (\<lambda>w. outstanding (trace w))
     (fst (run_schedule constant_objective (\<lambda>i. i) [0, 1, 0, 1, 0] (map init_worker [2, 1], [])))
   = [Some None,
      Some (Some \<lparr>trial_id = 1, parameters = 1, status = Running, trial_value = None\<rparr>)] \<and>
   statuses (snd (run_schedule constant_objective (\<lambda>i. i) [0, 1, 0, 1, 0] (map init_worker [2, 1], [])))
   = [Complete, Running] \<and>
   map (running_of (snd (run_schedule constant_objective (\<lambda>i. i) [0, 1, 0, 1, 0] (map init_worker [2, 1], []))))
     (fst (run_schedule constant_objective (\<lambda>i. i) [0, 1, 0, 1, 0] (map init_worker [2, 1], [])))
   = [[], [1]] \<and>
   list_all (\<lambda>w. running_of (snd (run_schedule constant_objective (\<lambda>i. i) [0, 1, 0, 1, 0] (map init_worker [2, 1], []))) w
                       = open_trial w \<and>
                     length (running_of
                       (snd (run_schedule constant_objective (\<lambda>i. i) [0, 1, 0, 1, 0] (map init_worker [2, 1], []))) w) \<le> 1 \<and>
                     set (asked_ids w) \<subseteq> set (created_ids
                       (snd (run_schedule constant_objective (\<lambda>i. i) [0, 1, 0, 1, 0] (map init_worker [2, 1], [])))))
        (fst (run_schedule constant_objective (\<lambda>i. i) [0, 1, 0, 1, 0] (map init_worker [2, 1], [])))"
proof -
  have v: "map (\<lambda>w. outstanding (trace w))
     (fst (run_schedule constant_objective (\<lambda>i. i) [0, 1, 0, 1, 0] (map init_worker [2, 1], [])))
   = [Some None,
      Some (Some \<lparr>trial_id = 1, parameters = 1, status = Running, trial_value = None\<rparr>)]"
    by code_simp
  have s: "statuses (snd (run_schedule constant_objective (\<lambda>i. i) [0, 1, 0, 1, 0] (map init_worker [2, 1], [])))
   = [Complete, Running]"
    by code_simp
  have r: "map (running_of (snd (run_schedule constant_objective (\<lambda>i. i) [0, 1, 0, 1, 0] (map init_worker [2, 1], []))))
     (fst (run_schedule constant_objective (\<lambda>i. i) [0, 1, 0, 1, 0] (map init_worker [2, 1], [])))
   = [[], [1]]"
    by code_simp
  note th = one_outstanding_trial [of constant_objective "\<lambda>i. i" "[0, 1, 0, 1, 0]" "[2, 1]" "[]",
      THEN conjunct2, rule_format, OF well_formed_Nil]
  from v s r th show ?thesis by (intro conjI)
qed


end
